theory Spec2Isabelle
  imports Complex_Main
begin

section \<open>Time values\<close>

text \<open>
  The scheduler works with three kinds of values of Python's \<^verbatim>\<open>datetime\<close> module. All
  three are modelled as a number of microseconds:
  \<^item> a naive \<^verbatim>\<open>datetime.datetime\<close> is the number of microseconds since
    0001-01-01 00:00:00, so its calendar date is \<open>t div US_PER_DAY\<close> and its time of day
    is \<open>t mod US_PER_DAY\<close>;
  \<^item> a \<^verbatim>\<open>datetime.timedelta\<close> is a (possibly negative) number of microseconds;
  \<^item> a \<^verbatim>\<open>datetime.time\<close> is the number of microseconds since midnight.
  The library raises \<^verbatim>\<open>OverflowError\<close> when a timedelta or a datetime leaves its range and
  \<^verbatim>\<open>ValueError\<close> when a field of a time of day is out of range; both are branches of
  the model.
\<close>

type_synonym datetime = int
type_synonym timedelta = int
type_synonym time = int

datatype error =
    AssertionError
  | TypeError
  | ValueError
  | OverflowError
  | UserError string

definition US_PER_SECOND :: int where
  "US_PER_SECOND = 1000000"

definition US_PER_DAY :: int where
  "US_PER_DAY = 86400000000"

definition MAX_DATETIME :: int where
  \<comment> \<open>one past 9999-12-31 23:59:59.999999: 3652059 days\<close>
  "MAX_DATETIME = 315537897600000000"

definition unit_us :: "string \<Rightarrow> int option" where
  \<comment> \<open>the keyword arguments of \<^verbatim>\<open>timedelta\<close> that the scheduler uses\<close>
  "unit_us u =
     (if u = ''seconds'' then Some 1000000
      else if u = ''minutes'' then Some 60000000
      else if u = ''hours'' then Some 3600000000
      else if u = ''days'' then Some 86400000000
      else if u = ''weeks'' then Some 604800000000
      else None)"

definition timedelta :: "string \<Rightarrow> int \<Rightarrow> error + timedelta" where
  \<comment> \<open>\<^verbatim>\<open>datetime.timedelta(**{unit: interval})\<close>; at most 999999999 days in magnitude\<close>
  "timedelta u n =
     (case unit_us u of
        None \<Rightarrow> Inl TypeError
      | Some f \<Rightarrow>
          if - 999999999 * US_PER_DAY \<le> n * f \<and> n * f < 1000000000 * US_PER_DAY
          then Inr (n * f) else Inl OverflowError)"

definition dt_add :: "datetime \<Rightarrow> timedelta \<Rightarrow> error + datetime" where
  \<comment> \<open>\<^verbatim>\<open>datetime + timedelta\<close>\<close>
  "dt_add t d = (if 0 \<le> t + d \<and> t + d < MAX_DATETIME then Inr (t + d) else Inl OverflowError)"

definition dt_sub :: "datetime \<Rightarrow> timedelta \<Rightarrow> error + datetime" where
  \<comment> \<open>\<^verbatim>\<open>datetime - timedelta\<close>\<close>
  "dt_sub t d = (if 0 \<le> t - d \<and> t - d < MAX_DATETIME then Inr (t - d) else Inl OverflowError)"

definition time :: "int \<Rightarrow> int \<Rightarrow> time" where
  \<comment> \<open>\<^verbatim>\<open>datetime.time(hour, minute)\<close>, for fields that are in range\<close>
  "time h m = (h * 60 + m) * 60 * US_PER_SECOND"

definition dt_time :: "datetime \<Rightarrow> time" where
  \<comment> \<open>\<^verbatim>\<open>dt.time()\<close>: the time of day of a datetime\<close>
  "dt_time t = t mod US_PER_DAY"

definition replace :: "datetime \<Rightarrow> time \<Rightarrow> error + datetime" where
  \<comment> \<open>\<^verbatim>\<open>dt.replace(hour=a.hour, minute=a.minute, second=a.second, microsecond=0)\<close>:
      the date of \<open>dt\<close>, the time of day of \<open>a\<close> cut to whole seconds\<close>
  "replace t a =
     (if 0 \<le> a \<and> a < US_PER_DAY
      then Inr ((t div US_PER_DAY) * US_PER_DAY + (a div US_PER_SECOND) * US_PER_SECOND)
      else Inl ValueError)"

section \<open>The world outside the scheduler\<close>

text \<open>
  \<^verbatim>\<open>datetime.datetime.now()\<close> reads the wall clock, and every call may return another
  value. The clock is a function from the number of the reading to the value read, and the
  world counts the readings made so far. A bound action is arbitrary code: it acts on an
  environment of type \<open>'e\<close> and either returns or raises. Actions that reach back into the
  scheduler that runs them are outside the model. The trace records, in order, the calls
  of \<^verbatim>\<open>job.run()\<close> made by the scheduler (by the position of the job in the collection)
  and the calls of \<^verbatim>\<open>time.sleep\<close>; the calls to the logger are left out.
\<close>

type_synonym clock = "nat \<Rightarrow> datetime"

datatype event = Ran nat | Slept real

record 'e world =
  ticks :: nat
  env :: 'e
  trace :: "event list"

type_synonym 'e action = "'e \<Rightarrow> error option \<times> 'e"

definition now :: "clock \<Rightarrow> 'e world \<Rightarrow> datetime \<times> 'e world" where
  "now clk w = (clk (ticks w), w\<lparr>ticks := Suc (ticks w)\<rparr>)"

definition sleep :: "real \<Rightarrow> 'e world \<Rightarrow> (error + unit) \<times> 'e world" where
  \<comment> \<open>\<^verbatim>\<open>time.sleep\<close> refuses a negative length\<close>
  "sleep d w = (if d < 0 then (Inl ValueError, w) else (Inr (), w\<lparr>trace := trace w @ [Slept d]\<rparr>))"

section \<open>Job\<close>

record 'e job =
  interval :: int
  job_func :: "'e action option"
  unit :: "string option"
  at_time :: "time option"
  last_run :: "datetime option"
  next_run :: "datetime option"
  period :: "timedelta option"

definition Job_init :: "int \<Rightarrow> 'e job" where
  "Job_init n =
     \<lparr>interval = n, job_func = None, unit = None, at_time = None,
      last_run = None, next_run = None, period = None\<rparr>"

definition Job_lt :: "'e job \<Rightarrow> 'e job \<Rightarrow> error + bool" where
  \<comment> \<open>\<^verbatim>\<open>__lt__\<close>: comparing with \<^verbatim>\<open>None\<close> raises\<close>
  "Job_lt a b =
     (case next_run a of
        None \<Rightarrow> Inl TypeError
      | Some x \<Rightarrow> (case next_run b of None \<Rightarrow> Inl TypeError | Some y \<Rightarrow> Inr (x < y)))"

definition seconds :: "'e job \<Rightarrow> 'e job" where
  "seconds j = j\<lparr>unit := Some ''seconds''\<rparr>"

definition minutes :: "'e job \<Rightarrow> 'e job" where
  "minutes j = j\<lparr>unit := Some ''minutes''\<rparr>"

definition hours :: "'e job \<Rightarrow> 'e job" where
  "hours j = j\<lparr>unit := Some ''hours''\<rparr>"

definition days :: "'e job \<Rightarrow> 'e job" where
  "days j = j\<lparr>unit := Some ''days''\<rparr>"

definition weeks :: "'e job \<Rightarrow> 'e job" where
  "weeks j = j\<lparr>unit := Some ''weeks''\<rparr>"

definition second :: "'e job \<Rightarrow> error + 'e job" where
  "second j = (if interval j = 1 then Inr (seconds j) else Inl AssertionError)"

definition minute :: "'e job \<Rightarrow> error + 'e job" where
  "minute j = (if interval j = 1 then Inr (minutes j) else Inl AssertionError)"

definition hour :: "'e job \<Rightarrow> error + 'e job" where
  "hour j = (if interval j = 1 then Inr (hours j) else Inl AssertionError)"

definition day :: "'e job \<Rightarrow> error + 'e job" where
  "day j = (if interval j = 1 then Inr (days j) else Inl AssertionError)"

definition week :: "'e job \<Rightarrow> error + 'e job" where
  "week j = (if interval j = 1 then Inr (weeks j) else Inl AssertionError)"

subsection \<open>Parsing the anchor time\<close>

fun str_split :: "char \<Rightarrow> string \<Rightarrow> string list" where
  \<comment> \<open>\<^verbatim>\<open>s.split(c)\<close> for a separator of one character\<close>
  "str_split c [] = [[]]"
| "str_split c (x # xs) =
     (if x = c then [] # str_split c xs
      else (x # hd (str_split c xs)) # tl (str_split c xs))"

fun ints :: "(string \<Rightarrow> int option) \<Rightarrow> string list \<Rightarrow> error + int list" where
  \<comment> \<open>\<^verbatim>\<open>[int(t) for t in parts]\<close>: the first part that is no integer raises\<close>
  "ints py_int [] = Inr []"
| "ints py_int (p # ps) =
     (case py_int p of
        None \<Rightarrow> Inl ValueError
      | Some n \<Rightarrow> (case ints py_int ps of Inl e \<Rightarrow> Inl e | Inr ns \<Rightarrow> Inr (n # ns)))"

definition at_job :: "(string \<Rightarrow> int option) \<Rightarrow> string \<Rightarrow> 'e job \<Rightarrow> error + 'e job" where
  \<comment> \<open>The built-in \<^verbatim>\<open>int\<close> on strings is the parameter \<open>py_int\<close> (\<open>None\<close> where it
      raises \<^verbatim>\<open>ValueError\<close>). Unpacking into \<^verbatim>\<open>hour, minute\<close> raises \<^verbatim>\<open>ValueError\<close>
      unless there are exactly two parts.\<close>
  "at_job py_int time_str j =
     (if unit j \<noteq> Some ''days'' then Inl AssertionError
      else case ints py_int (str_split CHR '':'' time_str) of
        Inl e \<Rightarrow> Inl e
      | Inr [h, m] \<Rightarrow>
          if \<not> (0 \<le> h \<and> h \<le> 23) then Inl AssertionError
          else if \<not> (0 \<le> m \<and> m \<le> 59) then Inl AssertionError
          else Inr (j\<lparr>at_time := Some (time h m)\<rparr>)
      | Inr _ \<Rightarrow> Inl ValueError)"

subsection \<open>Computing the next run\<close>

definition schedule_next_run ::
  "clock \<Rightarrow> 'e job \<Rightarrow> 'e world \<Rightarrow> (error + unit) \<times> 'e job \<times> 'e world" where
  \<comment> \<open>\<^verbatim>\<open>_schedule_next_run\<close>. A time of day is always true in a condition (Python 3.5 and
      later), so \<^verbatim>\<open>if self.at_time\<close> tests for \<^verbatim>\<open>None\<close>. The clock is read a second time
      only when \<^verbatim>\<open>last_run\<close> is absent.\<close>
  "schedule_next_run clk j w =
     (if unit j \<notin> {Some ''seconds'', Some ''minutes'', Some ''hours'', Some ''days'', Some ''weeks''}
      then (Inl AssertionError, j, w)
      else
       (case timedelta (the (unit j)) (interval j) of
          Inl e \<Rightarrow> (Inl e, j, w)
        | Inr p \<Rightarrow>
           (let j1 = j\<lparr>period := Some p\<rparr>;
                (n1, w1) = now clk w
            in
             (case dt_add n1 p of
                Inl e \<Rightarrow> (Inl e, j1, w1)
              | Inr t \<Rightarrow>
                 (let j2 = j1\<lparr>next_run := Some t\<rparr>
                  in
                   (case at_time j2 of
                      None \<Rightarrow> (Inr (), j2, w1)
                    | Some a \<Rightarrow>
                       (if unit j2 \<noteq> Some ''days'' then (Inl AssertionError, j2, w1)
                        else
                         (case replace t a of
                            Inl e \<Rightarrow> (Inl e, j2, w1)
                          | Inr t' \<Rightarrow>
                             (let j3 = j2\<lparr>next_run := Some t'\<rparr>
                              in
                               (if last_run j3 = None
                                then
                                 (let (n2, w2) = now clk w1
                                  in
                                   (if a > dt_time n2
                                    then
                                     (case dt_sub t' US_PER_DAY of
                                        Inl e \<Rightarrow> (Inl e, j3, w2)
                                      | Inr t'' \<Rightarrow> (Inr (), j3\<lparr>next_run := Some t''\<rparr>, w2))
                                    else (Inr (), j3, w2)))
                                else (Inr (), j3, w1)))))))))))"

definition do :: "clock \<Rightarrow> 'e action \<Rightarrow> 'e job \<Rightarrow> 'e world \<Rightarrow> (error + unit) \<times> 'e job \<times> 'e world" where
  \<comment> \<open>the action comes with its arguments already bound\<close>
  "do clk f j w = schedule_next_run clk (j\<lparr>job_func := Some f\<rparr>) w"

definition should_run :: "clock \<Rightarrow> 'e job \<Rightarrow> 'e world \<Rightarrow> (error + bool) \<times> 'e world" where
  \<comment> \<open>the clock is read before the comparison raises\<close>
  "should_run clk j w =
     (let (n, w1) = now clk w
      in case next_run j of None \<Rightarrow> (Inl TypeError, w1) | Some t \<Rightarrow> (Inr (n \<ge> t), w1))"

definition run :: "clock \<Rightarrow> 'e job \<Rightarrow> 'e world \<Rightarrow> (error + unit) \<times> 'e job \<times> 'e world" where
  \<comment> \<open>calling \<^verbatim>\<open>None\<close> raises \<^verbatim>\<open>TypeError\<close>; an action that raises ends the method\<close>
  "run clk j w =
     (case job_func j of
        None \<Rightarrow> (Inl TypeError, j, w)
      | Some f \<Rightarrow>
          (case f (env w) of
             (Some e, x) \<Rightarrow> (Inl e, j, w\<lparr>env := x\<rparr>)
           | (None, x) \<Rightarrow>
               let (n, w1) = now clk (w\<lparr>env := x\<rparr>)
               in schedule_next_run clk (j\<lparr>last_run := Some n\<rparr>) w1))"

section \<open>Scheduler\<close>

text \<open>
  The collection holds the Job objects themselves. A position of the list stands for the
  object stored there: running a job replaces the record at its position, as the method
  mutates the object in place.
\<close>

record 'e scheduler =
  jobs :: "'e job list"

definition Scheduler_init :: "'e scheduler" where
  "Scheduler_init = \<lparr>jobs = []\<rparr>"

definition every :: "int \<Rightarrow> 'e scheduler \<Rightarrow> nat \<times> 'e scheduler" where
  \<comment> \<open>returns the position of the new job\<close>
  "every n s = (length (jobs s), s\<lparr>jobs := jobs s @ [Job_init n]\<rparr>)"

definition clear :: "'e scheduler \<Rightarrow> 'e scheduler" where
  "clear s = s\<lparr>jobs := []\<rparr>"

fun runnable_jobs ::
  "clock \<Rightarrow> 'e job list \<Rightarrow> nat \<Rightarrow> 'e world \<Rightarrow> (error + (nat \<times> 'e job) list) \<times> 'e world" where
  \<comment> \<open>the generator \<^verbatim>\<open>(job for job in self.jobs if job.should_run)\<close>, read to its end
      by \<^verbatim>\<open>sorted\<close> before any job runs: the due jobs from position \<open>i\<close> on, each
      with its position in the collection\<close>
  "runnable_jobs clk [] i w = (Inr [], w)"
| "runnable_jobs clk (j # js) i w =
     (case should_run clk j w of
        (Inl e, w1) \<Rightarrow> (Inl e, w1)
      | (Inr b, w1) \<Rightarrow>
          (case runnable_jobs clk js (Suc i) w1 of
             (Inl e, w2) \<Rightarrow> (Inl e, w2)
           | (Inr ps, w2) \<Rightarrow> (Inr (if b then (i, j) # ps else ps), w2)))"

text \<open>
  The built-in \<^verbatim>\<open>sorted\<close> compares with \<^verbatim>\<open>__lt__\<close> only and is stable. It is modelled as
  an insertion sort: each item in turn goes into the items sorted so far, in front of the
  first one that it is less than. A comparison that raises ends the sort.
\<close>

fun insert_sorted :: "('a \<Rightarrow> 'a \<Rightarrow> error + bool) \<Rightarrow> 'a \<Rightarrow> 'a list \<Rightarrow> error + 'a list" where
  "insert_sorted lt x [] = Inr [x]"
| "insert_sorted lt x (y # ys) =
     (case lt x y of
        Inl e \<Rightarrow> Inl e
      | Inr b \<Rightarrow>
          if b then Inr (x # y # ys)
          else (case insert_sorted lt x ys of Inl e \<Rightarrow> Inl e | Inr r \<Rightarrow> Inr (y # r)))"

fun sorted_from :: "('a \<Rightarrow> 'a \<Rightarrow> error + bool) \<Rightarrow> 'a list \<Rightarrow> 'a list \<Rightarrow> error + 'a list" where
  "sorted_from lt acc [] = Inr acc"
| "sorted_from lt acc (x # xs) =
     (case insert_sorted lt x acc of Inl e \<Rightarrow> Inl e | Inr acc' \<Rightarrow> sorted_from lt acc' xs)"

definition py_sorted :: "('a \<Rightarrow> 'a \<Rightarrow> error + bool) \<Rightarrow> 'a list \<Rightarrow> error + 'a list" where
  "py_sorted lt xs = sorted_from lt [] xs"

definition sorted_jobs :: "(nat \<times> 'e job) list \<Rightarrow> error + nat list" where
  \<comment> \<open>\<^verbatim>\<open>sorted(runnable_jobs)\<close>: the jobs are compared by \<^verbatim>\<open>Job.__lt__\<close>; the result is
      given by the positions of the jobs\<close>
  "sorted_jobs ps =
     (case py_sorted (\<lambda>a b. Job_lt (snd a) (snd b)) ps of
        Inl e \<Rightarrow> Inl e
      | Inr qs \<Rightarrow> Inr (map fst qs))"

fun run_each ::
  "clock \<Rightarrow> nat list \<Rightarrow> 'e scheduler \<Rightarrow> 'e world \<Rightarrow> (error + unit) \<times> 'e scheduler \<times> 'e world" where
  \<comment> \<open>\<^verbatim>\<open>for job in ...: job.run()\<close> over the jobs at the given positions\<close>
  "run_each clk [] s w = (Inr (), s, w)"
| "run_each clk (i # is) s w =
     (case run clk (jobs s ! i) (w\<lparr>trace := trace w @ [Ran i]\<rparr>) of
        (Inl e, j', w1) \<Rightarrow> (Inl e, s\<lparr>jobs := (jobs s)[i := j']\<rparr>, w1)
      | (Inr u, j', w1) \<Rightarrow> run_each clk is (s\<lparr>jobs := (jobs s)[i := j']\<rparr>) w1)"

definition run_pending ::
  "clock \<Rightarrow> 'e scheduler \<Rightarrow> 'e world \<Rightarrow> (error + unit) \<times> 'e scheduler \<times> 'e world" where
  "run_pending clk s w =
     (case runnable_jobs clk (jobs s) 0 w of
        (Inl e, w1) \<Rightarrow> (Inl e, s, w1)
      | (Inr ps, w1) \<Rightarrow>
          (case sorted_jobs ps of
             Inl e \<Rightarrow> (Inl e, s, w1)
           | Inr order \<Rightarrow> run_each clk order s w1))"

fun run_all_from ::
  "clock \<Rightarrow> real \<Rightarrow> nat list \<Rightarrow> 'e scheduler \<Rightarrow> 'e world \<Rightarrow> (error + unit) \<times> 'e scheduler \<times> 'e world" where
  \<comment> \<open>the loop of \<^verbatim>\<open>run_all\<close>: run, then sleep, also after the last job\<close>
  "run_all_from clk d [] s w = (Inr (), s, w)"
| "run_all_from clk d (i # is) s w =
     (case run clk (jobs s ! i) (w\<lparr>trace := trace w @ [Ran i]\<rparr>) of
        (Inl e, j', w1) \<Rightarrow> (Inl e, s\<lparr>jobs := (jobs s)[i := j']\<rparr>, w1)
      | (Inr u, j', w1) \<Rightarrow>
          (case sleep d w1 of
             (Inl e, w2) \<Rightarrow> (Inl e, s\<lparr>jobs := (jobs s)[i := j']\<rparr>, w2)
           | (Inr u', w2) \<Rightarrow> run_all_from clk d is (s\<lparr>jobs := (jobs s)[i := j']\<rparr>) w2))"

definition run_all ::
  "clock \<Rightarrow> real \<Rightarrow> 'e scheduler \<Rightarrow> 'e world \<Rightarrow> (error + unit) \<times> 'e scheduler \<times> 'e world" where
  "run_all clk delay_seconds s w = run_all_from clk delay_seconds [0..<length (jobs s)] s w"

fun min_from :: "'e job \<Rightarrow> 'e job list \<Rightarrow> error + 'e job" where
  \<comment> \<open>the loop of the built-in \<^verbatim>\<open>min\<close>: a later item replaces the best one so far only
      when it is less\<close>
  "min_from m [] = Inr m"
| "min_from m (x # xs) =
     (case Job_lt x m of Inl e \<Rightarrow> Inl e | Inr b \<Rightarrow> min_from (if b then x else m) xs)"

definition py_min :: "'e job list \<Rightarrow> error + 'e job" where
  \<comment> \<open>\<^verbatim>\<open>min\<close> of an empty sequence raises \<^verbatim>\<open>ValueError\<close>\<close>
  "py_min js = (case js of [] \<Rightarrow> Inl ValueError | j # js' \<Rightarrow> min_from j js')"

definition Scheduler_next_run :: "'e scheduler \<Rightarrow> error + datetime option" where
  \<comment> \<open>the property \<^verbatim>\<open>Scheduler.next_run\<close>; the attribute read may be \<^verbatim>\<open>None\<close>\<close>
  "Scheduler_next_run s = (case py_min (jobs s) of Inl e \<Rightarrow> Inl e | Inr j \<Rightarrow> Inr (next_run j))"

definition idle_seconds :: "clock \<Rightarrow> 'e scheduler \<Rightarrow> 'e world \<Rightarrow> (error + real) \<times> 'e world" where
  \<comment> \<open>\<^verbatim>\<open>self.next_run\<close> is evaluated before the clock is read; the float that
      \<^verbatim>\<open>total_seconds\<close> returns is taken as the exact quotient\<close>
  "idle_seconds clk s w =
     (case Scheduler_next_run s of
        Inl e \<Rightarrow> (Inl e, w)
      | Inr r \<Rightarrow>
          let (n, w1) = now clk w
          in (case r of
                None \<Rightarrow> (Inl TypeError, w1)
              | Some t \<Rightarrow> (Inr (real_of_int (t - n) / 1000000), w1)))"

section \<open>The behaviour in the words of the specification\<close>

text \<open>
  A string is parseable as "HH:MM" when it has exactly one colon and the text before it
  and the text after it are integers. The result is the pair of the two integers; their
  ranges are checked apart.
\<close>

definition parse_HH_MM :: "(string \<Rightarrow> int option) \<Rightarrow> string \<Rightarrow> (int \<times> int) option" where
  "parse_HH_MM py_int s =
     (let hh = takeWhile (\<lambda>c. c \<noteq> CHR '':'') s;
          r = dropWhile (\<lambda>c. c \<noteq> CHR '':'') s
      in case r of
           [] \<Rightarrow> None
         | c # mm \<Rightarrow>
             if CHR '':'' \<in> set mm then None
             else (case py_int hh of
                     None \<Rightarrow> None
                   | Some h \<Rightarrow> (case py_int mm of None \<Rightarrow> None | Some m \<Rightarrow> Some (h, m))))"

text \<open>
  The update of a job by a run that completes: \<^verbatim>\<open>last_run\<close> is the time \<open>n\<close> read after
  the action, and \<^verbatim>\<open>next_run\<close> is the time \<open>n'\<close> read for the schedule plus the period,
  with the time of day replaced by the anchor when there is one.
\<close>

definition bookkeeping :: "datetime \<Rightarrow> datetime \<Rightarrow> timedelta \<Rightarrow> 'e job \<Rightarrow> 'e job" where
  "bookkeeping n n' p j =
     j\<lparr>last_run := Some n, period := Some p,
       next_run := Some (case at_time j of
                           None \<Rightarrow> n' + p
                         | Some a \<Rightarrow> (n' + p) div US_PER_DAY * US_PER_DAY
                                       + a div US_PER_SECOND * US_PER_SECOND)\<rparr>"

text \<open>
  What the action of a job does to the environment, whether it returns or raises; a job
  without an action does nothing.
\<close>

definition effect :: "'e job \<Rightarrow> 'e \<Rightarrow> 'e" where
  "effect j e = (case job_func j of None \<Rightarrow> e | Some f \<Rightarrow> snd (f e))"

text \<open>
  A job whose run completes whenever it takes place: the action is bound and raises in no
  environment, the unit and the interval give a period, an anchor comes only with the unit
  days and is a time of day, and the period added to any reading of the clock is a date in
  range.
\<close>

definition never_fails :: "clock \<Rightarrow> 'e job \<Rightarrow> bool" where
  "never_fails clk j \<longleftrightarrow>
     (\<exists>f. job_func j = Some f \<and> (\<forall>e. fst (f e) = None))
     \<and> (\<exists>u p. unit j = Some u \<and> timedelta u (interval j) = Inr p
            \<and> (\<forall>k. 0 \<le> clk k + p \<and> clk k + p < MAX_DATETIME)
            \<and> (case at_time j of
                  None \<Rightarrow> True
                | Some a \<Rightarrow> u = ''days'' \<and> 0 \<le> a \<and> a < US_PER_DAY))"

text \<open>
  The order in which due jobs are run, on jobs given with their positions: by
  \<^verbatim>\<open>next_run\<close>, and by position among jobs with the same \<^verbatim>\<open>next_run\<close>.
\<close>

definition earlier :: "nat \<times> 'e job \<Rightarrow> nat \<times> 'e job \<Rightarrow> bool" where
  "earlier a b \<longleftrightarrow>
     the (next_run (snd a)) < the (next_run (snd b))
     \<or> (the (next_run (snd a)) = the (next_run (snd b)) \<and> fst a < fst b)"

text \<open>
  The jobs that \<^verbatim>\<open>every\<close> has created and that have not been through \<^verbatim>\<open>do\<close>: a new
  job, and what the unit selectors and \<^verbatim>\<open>at\<close> make of such a job.
\<close>

inductive unconfigured :: "'e job \<Rightarrow> bool" where
  created: "unconfigured (Job_init n)"
| plural: "unconfigured j \<Longrightarrow> j' \<in> {seconds j, minutes j, hours j, days j, weeks j} \<Longrightarrow> unconfigured j'"
| singular: "unconfigured j \<Longrightarrow> Inr j' \<in> {second j, minute j, hour j, day j, week j} \<Longrightarrow> unconfigured j'"
| anchored: "unconfigured j \<Longrightarrow> at_job py_int time_str j = Inr j' \<Longrightarrow> unconfigured j'"

section \<open>Integers in ASCII text\<close>

text \<open>
  The built-in \<^verbatim>\<open>int\<close> on text of ASCII characters: white space around the number is
  dropped, one sign may come first, and the decimal digits may be separated by single
  underscores. It is the parser the examples below are evaluated with.
\<close>

definition is_space :: "char \<Rightarrow> bool" where
  "is_space c = (c \<in> set [CHR 0x09, CHR 0x0A, CHR 0x0B, CHR 0x0C, CHR 0x0D,
                           CHR 0x1C, CHR 0x1D, CHR 0x1E, CHR 0x1F, CHR 0x20])"

definition strip :: "string \<Rightarrow> string" where
  "strip s = rev (dropWhile is_space (rev (dropWhile is_space s)))"

definition digit_of :: "char \<Rightarrow> int option" where
  "digit_of c =
     (if 48 \<le> (of_char c :: nat) \<and> (of_char c :: nat) \<le> 57
      then Some (int (of_char c) - 48) else None)"

fun digits :: "int \<Rightarrow> bool \<Rightarrow> string \<Rightarrow> int option" where
  \<comment> \<open>the flag says that the character before was a digit\<close>
  "digits acc prev [] = (if prev then Some acc else None)"
| "digits acc prev (c # cs) =
     (case digit_of c of
        Some d \<Rightarrow> digits (acc * 10 + d) True cs
      | None \<Rightarrow> if c = CHR ''_'' \<and> prev then digits acc False cs else None)"

definition ascii_int :: "string \<Rightarrow> int option" where
  "ascii_int s =
     (case strip s of
        [] \<Rightarrow> None
      | c # r \<Rightarrow>
          if c = CHR ''-'' then map_option uminus (digits 0 False r)
          else if c = CHR ''+'' then digits 0 False r
          else digits 0 False (c # r))"

section \<open>Example data\<close>

definition ticking :: "datetime \<Rightarrow> clock" where
  \<comment> \<open>a clock that starts at \<open>t\<close> and is one microsecond further at every reading\<close>
  "ticking t k = t + int k"

definition capped :: "datetime \<Rightarrow> clock" where
  \<comment> \<open>a clock that starts at \<open>t\<close>, is one microsecond further at each of its first hundred
      readings and stands still from then on\<close>
  "capped t k = t + int (min k 100)"

definition nine :: datetime where
  \<comment> \<open>2026-11-04 09:00:00\<close>
  "nine = 63929379600000000"

definition eleven :: datetime where
  \<comment> \<open>2026-11-04 11:00:00\<close>
  "eleven = 63929386800000000"

definition boom :: "string list action" where
  \<comment> \<open>an action that raises\<close>
  "boom e = (Some (UserError ''boom''), e)"

definition say :: "string \<Rightarrow> string list action" where
  \<comment> \<open>an action that leaves its name in the environment and returns\<close>
  "say name e = (None, e @ [name])"

definition world0 :: "string list world" where
  "world0 = \<lparr>ticks = 0, env = [], trace = []\<rparr>"

definition every_second :: "string list action \<Rightarrow> string list job" where
  \<comment> \<open>\<^verbatim>\<open>every(1).seconds.do(f)\<close>, configured at 09:00:00\<close>
  "every_second f = fst (snd (do (ticking nine) f (seconds (Job_init 1)) world0))"

definition every_minute :: "string list action \<Rightarrow> string list job" where
  \<comment> \<open>\<^verbatim>\<open>every(1).minutes.do(f)\<close>, configured at 09:00:00\<close>
  "every_minute f = fst (snd (do (ticking nine) f (minutes (Job_init 1)) world0))"

definition every_three_hours :: "string list action \<Rightarrow> string list job" where
  \<comment> \<open>\<^verbatim>\<open>every(3).hours.do(f)\<close>, configured at 09:00:00\<close>
  "every_three_hours f = fst (snd (do (ticking nine) f (hours (Job_init 3)) world0))"

definition daily_at_half_past_ten :: "string list action \<Rightarrow> string list job" where
  \<comment> \<open>\<^verbatim>\<open>every(1).days.at("10:30").do(f)\<close>, configured at 09:00:00\<close>
  "daily_at_half_past_ten f =
     fst (snd (do (ticking nine) f ((days (Job_init 1))\<lparr>at_time := Some (time 10 30)\<rparr>) world0))"

definition three_jobs :: "string list scheduler" where
  "three_jobs =
     \<lparr>jobs = [every_minute (say ''b''), every_second (say ''a''), every_three_hours (say ''c'')]\<rparr>"

definition one_daily_job :: "string list scheduler" where
  "one_daily_job = \<lparr>jobs = [daily_at_half_past_ten (say ''d'')]\<rparr>"

definition boom_first :: "string list scheduler" where
  \<comment> \<open>the job that raises has the earlier \<^verbatim>\<open>next_run\<close>\<close>
  "boom_first = \<lparr>jobs = [every_second boom, every_minute (say ''b'')]\<rparr>"

definition three_days_later :: datetime where
  \<comment> \<open>2026-11-07 11:00:00\<close>
  "three_days_later = 63929646000000000"

section \<open>Properties of a Job\<close>

subsection \<open>Arithmetic of dates\<close>

lemma replace_after:
  fixes n i a :: int
  assumes "0 < i" "0 \<le> a"
  shows "n < i * 86400000000 + n div 86400000000 * 86400000000 + a div 1000000 * 1000000"
proof -
  have 1: "n = n div 86400000000 * 86400000000 + n mod 86400000000" by simp
  have 2: "n mod 86400000000 < 86400000000" by simp
  have 3: "86400000000 \<le> i * 86400000000" using assms(1) by simp
  have 4: "0 \<le> a div 1000000 * 1000000" using assms(2) by simp
  show ?thesis using 1 2 3 4 by linarith
qed

lemma time_range:
  assumes "0 \<le> h" "h \<le> 23" "0 \<le> m" "m \<le> 59"
  shows "0 \<le> time h m" and "time h m < US_PER_DAY"
    and "time h m div US_PER_SECOND * US_PER_SECOND = time h m"
  using assms by (simp_all add: time_def US_PER_DAY_def US_PER_SECOND_def)

subsection \<open>Splitting at a separator\<close>

lemma str_split_not_Nil: "str_split c s \<noteq> []"
  by (induction s) auto

lemma str_split_no_sep: "c \<notin> set s \<Longrightarrow> str_split c s = [s]"
  by (induction s) auto

lemma str_split_append: "c \<notin> set a \<Longrightarrow> str_split c (a @ c # b) = a # str_split c b"
  by (induction a) auto

lemma str_split_two: "c \<notin> set a \<Longrightarrow> c \<notin> set b \<Longrightarrow> str_split c (a @ c # b) = [a, b]"
  by (simp add: str_split_append str_split_no_sep)

lemma length_str_split: "length (str_split c s) = Suc (length (filter ((=) c) s))"
  by (induction s) (auto simp: str_split_not_Nil)

lemma str_split_single: "str_split c s = [p] \<longleftrightarrow> c \<notin> set s \<and> p = s"
proof
  assume a: "str_split c s = [p]"
  then have "length (filter ((=) c) s) = 0"
    using length_str_split [of c s] by simp
  then have "c \<notin> set s" by (auto simp: filter_empty_conv)
  with a show "c \<notin> set s \<and> p = s" by (simp add: str_split_no_sep)
next
  assume "c \<notin> set s \<and> p = s"
  then show "str_split c s = [p]" by (simp add: str_split_no_sep)
qed

lemma str_split_first:
  "dropWhile (\<lambda>x. x \<noteq> c) s = y # r \<Longrightarrow>
     str_split c s = takeWhile (\<lambda>x. x \<noteq> c) s # str_split c r"
  by (induction s) (auto split: if_splits)

lemma ints_Inr: "ints f ps = Inr ns \<longleftrightarrow> map f ps = map Some ns"
proof (induction ps arbitrary: ns)
  case Nil
  show ?case by auto
next
  case (Cons p ps)
  show ?case
  proof (cases "f p")
    case None
    then show ?thesis by (cases ns) auto
  next
    case (Some n)
    show ?thesis
    proof (cases "ints f ps")
      case (Inl e)
      then have "map f ps \<noteq> map Some ms" for ms
        using Cons [of ms] by simp
      then show ?thesis using Some Inl by (cases ns) auto
    next
      case (Inr ms)
      then have "map f ps = map Some ms"
        using Cons [of ms] by simp
      then show ?thesis using Some Inr by (cases ns) auto
    qed
  qed
qed

lemma ints_error: "ints f ps = Inl e \<Longrightarrow> e = ValueError"
  by (induction ps arbitrary: e) (auto split: option.splits sum.splits)

lemma ints_two:
  "ints f (str_split CHR '':'' s) = Inr ns \<and> length ns = 2 \<longleftrightarrow>
     (\<exists>h m. parse_HH_MM f s = Some (h, m) \<and> ns = [h, m])"
proof -
  let ?hh = "takeWhile (\<lambda>x. x \<noteq> CHR '':'') s"
  let ?r = "dropWhile (\<lambda>x. x \<noteq> CHR '':'') s"
  have len: "ints f (str_split CHR '':'' s) = Inr ns \<Longrightarrow> length ns = length (str_split CHR '':'' s)"
    using ints_Inr [of f "str_split CHR '':'' s" ns] by (metis length_map)
  show ?thesis
  proof (cases ?r)
    case Nil
    then have "CHR '':'' \<notin> set s" by auto
    then have "length (str_split CHR '':'' s) = 1"
      by (simp add: str_split_no_sep)
    moreover have "parse_HH_MM f s = None"
      by (simp only: parse_HH_MM_def Let_def Nil list.case)
    ultimately show ?thesis
      using len by auto
  next
    case (Cons y mm)
    then have sp: "str_split CHR '':'' s = ?hh # str_split CHR '':'' mm"
      by (rule str_split_first)
    have pa: "parse_HH_MM f s =
        (if CHR '':'' \<in> set mm then None
         else (case f ?hh of None \<Rightarrow> None
               | Some h \<Rightarrow> (case f mm of None \<Rightarrow> None | Some m \<Rightarrow> Some (h, m))))"
      by (simp only: parse_HH_MM_def Let_def Cons list.case)
    show ?thesis
    proof (cases "CHR '':'' \<in> set mm")
      case True
      then have "length (str_split CHR '':'' mm) \<noteq> 1"
        using length_str_split [of "CHR '':''" mm] by (auto simp: filter_empty_conv)
      then have "length (str_split CHR '':'' s) \<noteq> 2"
        using sp by simp
      then show ?thesis
        using True len pa by auto
    next
      case False
      then have "str_split CHR '':'' s = [?hh, mm]"
        using sp by (simp add: str_split_no_sep)
      then show ?thesis
        using False pa by (auto simp: ints_Inr split: option.splits)
    qed
  qed
qed

lemma at_job_cases:
  "at_job f s j =
     (if unit j \<noteq> Some ''days'' then Inl AssertionError
      else case parse_HH_MM f s of
        None \<Rightarrow> Inl ValueError
      | Some (h, m) \<Rightarrow>
          if 0 \<le> h \<and> h \<le> 23 \<and> 0 \<le> m \<and> m \<le> 59
          then Inr (j\<lparr>at_time := Some (time h m)\<rparr>) else Inl AssertionError)"
proof (cases "ints f (str_split CHR '':'' s)")
  case (Inl e)
  then have "parse_HH_MM f s = None"
    using ints_two [of f s] by (cases "parse_HH_MM f s") auto
  then show ?thesis
    using Inl ints_error [OF Inl] by (simp add: at_job_def)
next
  case (Inr ns)
  show ?thesis
  proof (cases "length ns = 2")
    case True
    then obtain h m where p: "parse_HH_MM f s = Some (h, m)" "ns = [h, m]"
      using Inr ints_two [of f s ns] by auto
    then show ?thesis
      using Inr by (auto simp: at_job_def)
  next
    case False
    have "parse_HH_MM f s = None"
    proof (cases "parse_HH_MM f s")
      case None
      then show ?thesis .
    next
      case (Some hm)
      then have "ints f (str_split CHR '':'' s) = Inr [fst hm, snd hm]"
        using ints_two [of f s "[fst hm, snd hm]"] by simp
      then show ?thesis using Inr False by simp
    qed
    moreover have "(case ns of [h, m] \<Rightarrow> a h m | _ \<Rightarrow> b) = b" for a :: "int \<Rightarrow> int \<Rightarrow> error + 'a job" and b
      using False by (auto split: list.splits)
    ultimately show ?thesis
      using Inr by (simp add: at_job_def)
  qed
qed

lemma parse_seconds_component:
  "length (filter ((=) CHR '':'') s) \<noteq> 1 \<Longrightarrow> parse_HH_MM f s = None"
proof -
  assume a: "length (filter ((=) CHR '':'') s) \<noteq> 1"
  have "parse_HH_MM f s = Some (h, m) \<Longrightarrow> False" for h m
  proof -
    assume "parse_HH_MM f s = Some (h, m)"
    then have "ints f (str_split CHR '':'' s) = Inr [h, m]"
      using ints_two [of f s "[h, m]"] by simp
    then have "length (str_split CHR '':'' s) = 2"
      using ints_Inr [of f "str_split CHR '':'' s" "[h, m]"] by (metis length_map length_Cons list.size(3) numeral_2_eq_2)
    then show False using a length_str_split [of "CHR '':''" s] by simp
  qed
  then show ?thesis by (cases "parse_HH_MM f s") auto
qed

subsection \<open>Evaluating the examples\<close>

lemmas at_job_eval = at_job_def parse_HH_MM_def ascii_int_def strip_def is_space_def digit_of_def days_def Job_init_def seconds_def

lemmas job_eval = schedule_next_run_def timedelta_def dt_add_def dt_sub_def replace_def now_def
        Let_def unit_us_def US_PER_DAY_def US_PER_SECOND_def MAX_DATETIME_def dt_time_def
        days_def seconds_def Job_init_def time_def ticking_def eleven_def nine_def world0_def do_def
        every_second_def run_def boom_def say_def

lemmas sched_eval = job_eval every_minute_def every_three_hours_def daily_at_half_past_ten_def
  three_jobs_def one_daily_job_def three_days_later_def minutes_def hours_def

lemma every_second_value:
  "every_second f = \<lparr>interval = 1, job_func = Some f, unit = Some ''seconds'', at_time = None,
     last_run = None, next_run = Some 63929379601000000, period = Some 1000000\<rparr>"
  by (simp add: job_eval)

lemma every_minute_value:
  "every_minute f = \<lparr>interval = 1, job_func = Some f, unit = Some ''minutes'', at_time = None,
     last_run = None, next_run = Some 63929379660000000, period = Some 60000000\<rparr>"
  by (simp add: sched_eval)

lemma every_three_hours_value:
  "every_three_hours f = \<lparr>interval = 3, job_func = Some f, unit = Some ''hours'', at_time = None,
     last_run = None, next_run = Some 63929390400000000, period = Some 10800000000\<rparr>"
  by (simp add: sched_eval)

lemma daily_at_half_past_ten_value:
  "daily_at_half_past_ten f = \<lparr>interval = 1, job_func = Some f, unit = Some ''days'',
     at_time = Some 37800000000, last_run = None, next_run = Some 63929385000000000,
     period = Some 86400000000\<rparr>"
  by (simp add: sched_eval)

lemmas example_values = every_second_value every_minute_value every_three_hours_value
  daily_at_half_past_ten_value three_jobs_def one_daily_job_def boom_first_def

lemmas run_eval = run_pending_def should_run_def sorted_jobs_def py_sorted_def Job_lt_def
  run_all_def sleep_def run_def
  schedule_next_run_def timedelta_def dt_add_def dt_sub_def replace_def now_def
  Let_def unit_us_def US_PER_DAY_def US_PER_SECOND_def MAX_DATETIME_def dt_time_def
  ticking_def eleven_def nine_def three_days_later_def world0_def say_def boom_def

lemma run_pending_three_days_later:
  "run_pending (ticking three_days_later) one_daily_job world0 =
     (Inr (),
      \<lparr>jobs = [(daily_at_half_past_ten (say ''d''))\<lparr>last_run := Some 63929646000000001, next_run := Some 63929730600000000\<rparr>]\<rparr>,
      \<lparr>ticks = 3, env = [''d''], trace = [Ran 0]\<rparr>)"
  by (simp add: example_values run_eval)

subsection \<open>The due-time algorithm\<close>

lemma schedule_next_run_last_run_eq:
  "schedule_next_run clk j w = (r, j', w') \<Longrightarrow> last_run j' = last_run j"
  by (auto simp: schedule_next_run_def Let_def now_def split: if_splits sum.splits option.splits)

lemma schedule_next_run_last_run:
  "last_run (fst (snd (schedule_next_run clk j w))) = last_run j"
  using schedule_next_run_last_run_eq [of clk j w] by (cases "schedule_next_run clk j w") auto

lemma schedule_next_run_daily_first:
  assumes j: "unit j = Some ''days''" "interval j = 1" "at_time j = Some a" "last_run j = None"
    and a: "0 \<le> a" "a < US_PER_DAY" "a div US_PER_SECOND * US_PER_SECOND = a"
    and c: "0 \<le> clk (ticks w)" "clk (ticks w) + US_PER_DAY < MAX_DATETIME"
      "clk (Suc (ticks w)) div US_PER_DAY = clk (ticks w) div US_PER_DAY"
  shows "fst (schedule_next_run clk j w) = Inr () \<and>
     next_run (fst (snd (schedule_next_run clk j w))) =
       Some (if dt_time (clk (Suc (ticks w))) < a
             then clk (ticks w) div US_PER_DAY * US_PER_DAY + a
             else (clk (ticks w) div US_PER_DAY + 1) * US_PER_DAY + a)"
proof -
  let ?n = "clk (ticks w)"
  have td: "timedelta ''days'' 1 = Inr US_PER_DAY"
    by (simp add: timedelta_def unit_us_def US_PER_DAY_def)
  have add: "dt_add ?n US_PER_DAY = Inr (?n + US_PER_DAY)"
    using c by (simp add: dt_add_def US_PER_DAY_def)
  have rep: "replace (?n + US_PER_DAY) a = Inr ((?n div US_PER_DAY + 1) * US_PER_DAY + a)"
    using a by (simp add: replace_def US_PER_DAY_def)
  have d0: "0 \<le> ?n div US_PER_DAY * US_PER_DAY" "?n div US_PER_DAY * US_PER_DAY \<le> ?n"
    using c(1) by (simp_all add: US_PER_DAY_def)
  have sub: "dt_sub ((?n div US_PER_DAY + 1) * US_PER_DAY + a) US_PER_DAY
               = Inr (?n div US_PER_DAY * US_PER_DAY + a)"
    using a c d0 by (simp add: dt_sub_def algebra_simps)
  show ?thesis
    using j by (simp add: schedule_next_run_def td add rep sub now_def Let_def)
qed

lemma schedule_next_run_later:
  assumes "schedule_next_run clk j w = (Inr (), j', w')"
    and "0 < interval j"
    and "\<not> (last_run j = None \<and> (\<exists>a. at_time j = Some a \<and> dt_time (clk (Suc (ticks w))) < a))"
  shows "\<exists>t. next_run j' = Some t \<and> clk (ticks w) < t"
  using assms
  apply (simp add: schedule_next_run_def timedelta_def dt_add_def replace_def now_def Let_def
      unit_us_def US_PER_DAY_def US_PER_SECOND_def
      split: if_splits option.splits sum.splits)
   apply (auto simp: replace_after)
  done

text \<open>
  C5. Whenever \<^verbatim>\<open>_schedule_next_run\<close> completes on a job with a positive interval (its unit
  is then one of the five recognised ones), the \<^verbatim>\<open>next_run\<close> it leaves is strictly later
  than the clock reading it was computed from, except possibly in the case of the same-day
  adjustment: a first computation (\<^verbatim>\<open>last_run\<close> absent) with an anchor that is later than
  the time of day of the second clock reading.
\<close>

theorem schedule_next_run_future:
  assumes "fst (schedule_next_run clk j w) = Inr ()"
    and "0 < interval j"
    and "\<not> (last_run j = None \<and> (\<exists>a. at_time j = Some a \<and> dt_time (clk (Suc (ticks w))) < a))"
  shows "\<exists>t. next_run (fst (snd (schedule_next_run clk j w))) = Some t \<and> clk (ticks w) < t"
proof (cases "schedule_next_run clk j w")
  case (fields r j' w')
  with assms(1) have "schedule_next_run clk j w = (Inr (), j', w')"
    by simp
  from schedule_next_run_later [OF this assms(2) assms(3)] fields show ?thesis
    by simp
qed

theorem schedule_next_run_future_witness:
  "fst (schedule_next_run (ticking eleven)
          ((days (Job_init 2))\<lparr>at_time := Some (time 10 30)\<rparr>) world0) = Inr ()
   \<and> 0 < interval ((days (Job_init 2 :: string list job))\<lparr>at_time := Some (time 10 30)\<rparr>)
   \<and> \<not> dt_time (ticking eleven (Suc (ticks world0))) < time 10 30
   \<and> (\<exists>t. next_run (fst (snd (schedule_next_run (ticking eleven)
              ((days (Job_init 2))\<lparr>at_time := Some (time 10 30)\<rparr>) world0))) = Some t
          \<and> ticking eleven (ticks world0) < t)"
proof -
  let ?j = "(days (Job_init 2 :: string list job))\<lparr>at_time := Some (time 10 30)\<rparr>"
  have h1: "fst (schedule_next_run (ticking eleven) ?j world0) = Inr ()"
    by (simp add: schedule_next_run_def timedelta_def dt_add_def dt_sub_def replace_def now_def
        Let_def unit_us_def US_PER_DAY_def US_PER_SECOND_def MAX_DATETIME_def dt_time_def
        days_def Job_init_def time_def ticking_def eleven_def world0_def)
  have h2: "0 < interval ?j"
    by (simp add: days_def Job_init_def)
  have h3: "\<not> dt_time (ticking eleven (Suc (ticks world0))) < time 10 30"
    by (simp add: dt_time_def ticking_def eleven_def world0_def time_def US_PER_DAY_def
        US_PER_SECOND_def)
  from h3 have h3': "\<not> (last_run ?j = None \<and>
      (\<exists>a. at_time ?j = Some a \<and> dt_time (ticking eleven (Suc (ticks world0))) < a))"
    by simp
  show ?thesis
    using schedule_next_run_future [OF h1 h2 h3'] h1 h2 h3 by simp
qed

subsection \<open>Configuration and execution\<close>

text \<open>
  C6. \<^verbatim>\<open>at(time_string)\<close> fails exactly when the unit is not days, or the string is not
  parseable as "HH:MM" (one colon, an integer on each side), or the hour is outside 0..23
  or the minute outside 0..59. The failure is an assertion error or a value error. A string
  whose number of colons is not one, so any string with a seconds component, is not
  parseable. On success the result is the same job with \<^verbatim>\<open>at_time\<close> set to that hour and
  minute.
\<close>

theorem at_job_fails_exactly:
  "((\<exists>e. at_job py_int s j = Inl e) \<longleftrightarrow>
      (unit j \<noteq> Some ''days'' \<or> parse_HH_MM py_int s = None \<or>
       (\<exists>h m. parse_HH_MM py_int s = Some (h, m) \<and> \<not> (0 \<le> h \<and> h \<le> 23 \<and> 0 \<le> m \<and> m \<le> 59))))
   \<and> (\<forall>e. at_job py_int s j = Inl e \<longrightarrow> e = AssertionError \<or> e = ValueError)
   \<and> (length (filter ((=) CHR '':'') s) \<noteq> 1 \<longrightarrow> parse_HH_MM py_int s = None)
   \<and> (\<forall>j'. at_job py_int s j = Inr j' \<longrightarrow>
          (\<exists>h m. parse_HH_MM py_int s = Some (h, m) \<and> j' = j\<lparr>at_time := Some (time h m)\<rparr>))"
proof (intro conjI)
  show "(\<exists>e. at_job py_int s j = Inl e) \<longleftrightarrow>
      (unit j \<noteq> Some ''days'' \<or> parse_HH_MM py_int s = None \<or>
       (\<exists>h m. parse_HH_MM py_int s = Some (h, m) \<and> \<not> (0 \<le> h \<and> h \<le> 23 \<and> 0 \<le> m \<and> m \<le> 59)))"
    by (cases "parse_HH_MM py_int s") (auto simp: at_job_cases)
  show "\<forall>e. at_job py_int s j = Inl e \<longrightarrow> e = AssertionError \<or> e = ValueError"
    by (cases "parse_HH_MM py_int s") (auto simp: at_job_cases split: if_splits)
  show "length (filter ((=) CHR '':'') s) \<noteq> 1 \<longrightarrow> parse_HH_MM py_int s = None"
    by (simp add: parse_seconds_component)
  show "\<forall>j'. at_job py_int s j = Inr j' \<longrightarrow>
          (\<exists>h m. parse_HH_MM py_int s = Some (h, m) \<and> j' = j\<lparr>at_time := Some (time h m)\<rparr>)"
    by (cases "parse_HH_MM py_int s") (auto simp: at_job_cases split: if_splits)
qed

theorem at_job_fails_exactly_witness:
  "at_job ascii_int ''10:30'' (days (Job_init 1 :: string list job))
     = Inr ((days (Job_init 1))\<lparr>at_time := Some (time 10 30)\<rparr>)
   \<and> parse_HH_MM ascii_int ''10:30'' = Some (10, 30)
   \<and> length (filter ((=) CHR '':'') ''10:30:00'') \<noteq> 1
   \<and> at_job ascii_int ''10:30:00'' (days (Job_init 1 :: string list job)) = Inl ValueError
   \<and> parse_HH_MM ascii_int ''25:00'' = Some (25, 0)
   \<and> at_job ascii_int ''25:00'' (days (Job_init 1 :: string list job)) = Inl AssertionError
   \<and> unit (seconds (Job_init 1 :: string list job)) \<noteq> Some ''days''
   \<and> at_job ascii_int ''10:30'' (seconds (Job_init 1 :: string list job)) = Inl AssertionError"
proof -
  let ?d = "days (Job_init 1 :: string list job)"
  have a: "at_job ascii_int ''10:30'' ?d = Inr (?d\<lparr>at_time := Some (time 10 30)\<rparr>)"
    by (simp add: at_job_eval)
  have p: "parse_HH_MM ascii_int ''10:30'' = Some (10, 30)"
    by (simp add: at_job_eval)
  have b: "length (filter ((=) CHR '':'') ''10:30:00'') \<noteq> 1"
    by simp
  have c: "parse_HH_MM ascii_int ''25:00'' = Some (25, 0)"
    by (simp add: at_job_eval)
  have d: "unit (seconds (Job_init 1 :: string list job)) \<noteq> Some ''days''"
    by (simp add: at_job_eval)
  have e: "at_job ascii_int ''10:30:00'' ?d = Inl ValueError"
    by (simp add: at_job_eval)
  have f: "at_job ascii_int ''25:00'' ?d = Inl AssertionError"
    by (simp add: at_job_eval)
  have g: "at_job ascii_int ''10:30'' (seconds (Job_init 1 :: string list job)) = Inl AssertionError"
    by (simp add: at_job_eval)
  show ?thesis
    using at_job_fails_exactly [of ascii_int "''10:30''" ?d]
      at_job_fails_exactly [of ascii_int "''10:30:00''" ?d]
      at_job_fails_exactly [of ascii_int "''25:00''" ?d]
      at_job_fails_exactly [of ascii_int "''10:30''" "seconds (Job_init 1 :: string list job)"]
      a p b c d e f g
    by simp
qed

text \<open>
  C2. For \<^verbatim>\<open>every(1).days.at("HH:MM").do(f)\<close> on a job that has not run, with both clock
  readings of the computation on the same calendar day: the configuration completes, and
  \<^verbatim>\<open>next_run\<close> is today at the anchor time when the anchor is strictly later than the
  current time of day, and tomorrow at the anchor time otherwise. The current time is the
  reading that the code compares the anchor with.
\<close>

theorem daily_at_first_next_run:
  assumes parse: "py_int hh = Some h" "py_int mm = Some m"
      "CHR '':'' \<notin> set hh" "CHR '':'' \<notin> set mm"
    and range: "0 \<le> h" "h \<le> 23" "0 \<le> m" "m \<le> 59"
    and valid: "0 \<le> clk (ticks w)" "clk (ticks w) + US_PER_DAY < MAX_DATETIME"
    and same_day: "clk (Suc (ticks w)) div US_PER_DAY = clk (ticks w) div US_PER_DAY"
  shows "\<exists>j. at_job py_int (hh @ CHR '':'' # mm) (days (Job_init 1)) = Inr j
     \<and> fst (do clk f j w) = Inr ()
     \<and> next_run (fst (snd (do clk f j w))) =
         Some (if dt_time (clk (Suc (ticks w))) < time h m
               then clk (ticks w) div US_PER_DAY * US_PER_DAY + time h m
               else (clk (ticks w) div US_PER_DAY + 1) * US_PER_DAY + time h m)"
proof -
  let ?j = "(days (Job_init 1))\<lparr>at_time := Some (time h m)\<rparr>"
  have "at_job py_int (hh @ CHR '':'' # mm) (days (Job_init 1)) = Inr ?j"
    using parse range by (simp add: at_job_def str_split_two days_def)
  moreover have "fst (do clk f ?j w) = Inr ()
     \<and> next_run (fst (snd (do clk f ?j w))) =
         Some (if dt_time (clk (Suc (ticks w))) < time h m
               then clk (ticks w) div US_PER_DAY * US_PER_DAY + time h m
               else (clk (ticks w) div US_PER_DAY + 1) * US_PER_DAY + time h m)"
    unfolding do_def
    by (rule schedule_next_run_daily_first)
      (simp_all add: days_def Job_init_def time_range [OF range] valid same_day)
  ultimately show ?thesis by blast
qed

theorem daily_at_first_next_run_witness:
  "ascii_int ''10'' = Some 10 \<and> ascii_int ''30'' = Some 30
   \<and> CHR '':'' \<notin> set ''10'' \<and> CHR '':'' \<notin> set ''30''
   \<and> 0 \<le> ticking nine (ticks world0) \<and> ticking nine (ticks world0) + US_PER_DAY < MAX_DATETIME
   \<and> ticking nine (Suc (ticks world0)) div US_PER_DAY = ticking nine (ticks world0) div US_PER_DAY
   \<and> 0 \<le> ticking eleven (ticks world0) \<and> ticking eleven (ticks world0) + US_PER_DAY < MAX_DATETIME
   \<and> ticking eleven (Suc (ticks world0)) div US_PER_DAY = ticking eleven (ticks world0) div US_PER_DAY
   \<and> (\<exists>j. at_job ascii_int ''10:30'' (days (Job_init 1)) = Inr j
         \<and> fst (do (ticking nine) (say ''f'') j world0) = Inr ()
         \<and> next_run (fst (snd (do (ticking nine) (say ''f'') j world0))) = Some 63929385000000000)
   \<and> (\<exists>j. at_job ascii_int ''10:30'' (days (Job_init 1)) = Inr j
         \<and> fst (do (ticking eleven) (say ''f'') j world0) = Inr ()
         \<and> next_run (fst (snd (do (ticking eleven) (say ''f'') j world0))) = Some 63929471400000000)"
proof -
  have p: "ascii_int ''10'' = Some 10" "ascii_int ''30'' = Some 30"
    by (simp_all add: ascii_int_def strip_def is_space_def digit_of_def)
  have c: "CHR '':'' \<notin> set ''10''" "CHR '':'' \<notin> set ''30''"
    by simp_all
  have r: "(0::int) \<le> 10" "(10::int) \<le> 23" "(0::int) \<le> 30" "(30::int) \<le> 59"
    by simp_all
  have n: "0 \<le> ticking nine (ticks world0)"
    "ticking nine (ticks world0) + US_PER_DAY < MAX_DATETIME"
    "ticking nine (Suc (ticks world0)) div US_PER_DAY = ticking nine (ticks world0) div US_PER_DAY"
    by (simp_all add: ticking_def nine_def world0_def US_PER_DAY_def MAX_DATETIME_def)
  have e: "0 \<le> ticking eleven (ticks world0)"
    "ticking eleven (ticks world0) + US_PER_DAY < MAX_DATETIME"
    "ticking eleven (Suc (ticks world0)) div US_PER_DAY = ticking eleven (ticks world0) div US_PER_DAY"
    by (simp_all add: ticking_def eleven_def world0_def US_PER_DAY_def MAX_DATETIME_def)
  have v: "(if dt_time (ticking nine (Suc (ticks world0))) < time 10 30
            then ticking nine (ticks world0) div US_PER_DAY * US_PER_DAY + time 10 30
            else (ticking nine (ticks world0) div US_PER_DAY + 1) * US_PER_DAY + time 10 30)
           = 63929385000000000"
    "(if dt_time (ticking eleven (Suc (ticks world0))) < time 10 30
            then ticking eleven (ticks world0) div US_PER_DAY * US_PER_DAY + time 10 30
            else (ticking eleven (ticks world0) div US_PER_DAY + 1) * US_PER_DAY + time 10 30)
           = 63929471400000000"
    by (simp_all add: ticking_def nine_def eleven_def world0_def US_PER_DAY_def US_PER_SECOND_def
        dt_time_def time_def)
  have s: "''10'' @ CHR '':'' # ''30'' = ''10:30''"
    by simp
  show ?thesis
    using daily_at_first_next_run [OF p c r n, of "say ''f''"]
      daily_at_first_next_run [OF p c r e, of "say ''f''"] p c n e
    unfolding v s by blast
qed

text \<open>
  C1, as amended. For a job with a bound action: when the action raises, \<^verbatim>\<open>run\<close> hands
  that error to the caller and leaves the job as it was, so \<^verbatim>\<open>last_run\<close> and \<^verbatim>\<open>next_run\<close>
  are not updated; when the action returns, \<^verbatim>\<open>run\<close> sets \<^verbatim>\<open>last_run\<close> to the current
  time and recomputes \<^verbatim>\<open>next_run\<close> by the due-time algorithm.
\<close>

theorem run_propagates_failure:
  assumes "job_func j = Some f"
  shows "(\<forall>e x. f (env w) = (Some e, x) \<longrightarrow> run clk j w = (Inl e, j, w\<lparr>env := x\<rparr>))
     \<and> (\<forall>x. f (env w) = (None, x) \<longrightarrow>
           run clk j w =
             schedule_next_run clk (j\<lparr>last_run := Some (clk (ticks w))\<rparr>)
               (w\<lparr>env := x, ticks := Suc (ticks w)\<rparr>)
           \<and> last_run (fst (snd (run clk j w))) = Some (clk (ticks w)))"
  using assms by (simp add: run_def now_def schedule_next_run_last_run)

text \<open>
  The claim C1 as stated fails: after a run whose action raises, \<^verbatim>\<open>last_run\<close> is still
  absent and \<^verbatim>\<open>next_run\<close> still has the value of the configuration at 09:00:00, although
  the run took place at 11:00:00.
\<close>

theorem run_failure_counterexample:
  "fst (run (ticking eleven) (every_second boom) world0) = Inl (UserError ''boom'')
   \<and> last_run (fst (snd (run (ticking eleven) (every_second boom) world0))) = None
   \<and> next_run (every_second boom) = Some 63929379601000000
   \<and> next_run (fst (snd (run (ticking eleven) (every_second boom) world0)))
       = Some 63929379601000000"
  by (simp add: job_eval)

theorem run_propagates_failure_witness:
  "job_func (every_second boom) = Some boom
   \<and> boom (env world0) = (Some (UserError ''boom''), [])
   \<and> run (ticking eleven) (every_second boom) world0
       = (Inl (UserError ''boom''), every_second boom, world0\<lparr>env := []\<rparr>)
   \<and> job_func (every_second (say ''tick'')) = Some (say ''tick'')
   \<and> say ''tick'' (env world0) = (None, [''tick''])
   \<and> last_run (fst (snd (run (ticking eleven) (every_second (say ''tick'')) world0)))
       = Some eleven
   \<and> next_run (fst (snd (run (ticking eleven) (every_second (say ''tick'')) world0)))
       = Some (eleven + 1 + 1000000)"
proof -
  have a: "job_func (every_second boom) = Some boom"
    by (simp add: job_eval)
  have b: "boom (env world0) = (Some (UserError ''boom''), [])"
    by (simp add: boom_def world0_def)
  have c: "job_func (every_second (say ''tick'')) = Some (say ''tick'')"
    by (simp add: job_eval)
  have d: "say ''tick'' (env world0) = (None, [''tick''])"
    by (simp add: say_def world0_def)
  have t: "ticking eleven (ticks world0) = eleven"
    by (simp add: ticking_def world0_def)
  have n: "next_run (fst (snd (schedule_next_run (ticking eleven)
        ((every_second (say ''tick''))\<lparr>last_run := Some eleven\<rparr>)
        (world0\<lparr>env := [''tick''], ticks := Suc (ticks world0)\<rparr>)))) = Some (eleven + 1 + 1000000)"
    by (simp add: job_eval)
  show ?thesis
    using run_propagates_failure [OF a, of world0 "ticking eleven"]
      run_propagates_failure [OF c, of world0 "ticking eleven"] a b c d n
    by (simp add: t schedule_next_run_last_run)
qed

section \<open>Properties of the Scheduler\<close>

subsection \<open>What a run changes\<close>

lemma schedule_next_run_frame:
  assumes "schedule_next_run clk j w = (r, j', w')"
  shows "job_func j' = job_func j" and "env w' = env w" and "trace w' = trace w"
  using assms
  by (auto simp: schedule_next_run_def Let_def now_def split: if_splits sum.splits option.splits)

lemma schedule_next_run_again:
  assumes "schedule_next_run clk j w = (Inr (), j', w')" and "last_run j \<noteq> None"
  shows "\<exists>u p. unit j = Some u \<and> timedelta u (interval j) = Inr p \<and>
     j' = j\<lparr>period := Some p,
            next_run := Some (case at_time j of
                           None \<Rightarrow> clk (ticks w) + p
                         | Some a \<Rightarrow> (clk (ticks w) + p) div US_PER_DAY * US_PER_DAY
                                       + a div US_PER_SECOND * US_PER_SECOND)\<rparr> \<and>
     w' = w\<lparr>ticks := Suc (ticks w)\<rparr>"
  using assms
  by (auto simp: schedule_next_run_def Let_def now_def dt_add_def replace_def
      split: if_splits sum.splits option.splits)

lemma run_frame:
  assumes "run clk j w = (r, j', w')"
  shows "job_func j' = job_func j" and "trace w' = trace w"
proof -
  have "job_func j' = job_func j \<and> trace w' = trace w"
  proof (cases "job_func j")
    case None
    then show ?thesis using assms by (simp add: run_def)
  next
    case (Some f)
    show ?thesis
    proof (cases "f (env w)")
      case (Pair res x)
      show ?thesis
      proof (cases res)
        case (Some e)
        then show ?thesis using assms \<open>job_func j = Some f\<close> Pair by (simp add: run_def) auto
      next
        case None
        then have "schedule_next_run clk (j\<lparr>last_run := Some (clk (ticks w))\<rparr>)
            (w\<lparr>env := x, ticks := Suc (ticks w)\<rparr>) = (r, j', w')"
          using assms \<open>job_func j = Some f\<close> Pair by (simp add: run_def now_def)
        from schedule_next_run_frame [OF this] show ?thesis by simp
      qed
    qed
  qed
  then show "job_func j' = job_func j" and "trace w' = trace w" by simp_all
qed

lemma run_Inr:
  assumes "run clk j w = (Inr (), j', w')"
  shows "\<exists>u p. unit j = Some u \<and> timedelta u (interval j) = Inr p \<and>
     j' = bookkeeping (clk (ticks w)) (clk (Suc (ticks w))) p j \<and>
     ticks w' = ticks w + 2 \<and> job_func j \<noteq> None"
proof (cases "job_func j")
  case None
  then show ?thesis using assms by (simp add: run_def)
next
  case (Some f)
  show ?thesis
  proof (cases "f (env w)")
    case (Pair res x)
    show ?thesis
    proof (cases res)
      case (Some e)
      then show ?thesis using assms \<open>job_func j = Some f\<close> Pair by (simp add: run_def)
    next
      case None
      then have "schedule_next_run clk (j\<lparr>last_run := Some (clk (ticks w))\<rparr>)
          (w\<lparr>env := x, ticks := Suc (ticks w)\<rparr>) = (Inr (), j', w')"
        using assms \<open>job_func j = Some f\<close> Pair by (simp add: run_def now_def)
      from schedule_next_run_again [OF this] \<open>job_func j = Some f\<close> show ?thesis
        by (auto simp: bookkeeping_def split: option.splits)
    qed
  qed
qed

lemma run_unconfigured: "job_func j = None \<Longrightarrow> run clk j w = (Inl TypeError, j, w)"
  by (simp add: run_def)

lemma should_run_cases:
  "should_run clk j w =
     (case next_run j of None \<Rightarrow> Inl TypeError | Some t \<Rightarrow> Inr (t \<le> clk (ticks w)),
      w\<lparr>ticks := Suc (ticks w)\<rparr>)"
  by (simp add: should_run_def now_def split: option.splits)

subsection \<open>Selecting the due jobs\<close>

lemma runnable_jobs_step:
  assumes "runnable_jobs clk (j # js) i w = (Inr ps, w')"
  obtains t ps' where "next_run j = Some t"
    and "runnable_jobs clk js (Suc i) (w\<lparr>ticks := Suc (ticks w)\<rparr>) = (Inr ps', w')"
    and "ps = (if t \<le> clk (ticks w) then (i, j) # ps' else ps')"
  using assms
  by (auto simp: should_run_cases split: option.splits prod.splits sum.splits)

lemma runnable_jobs_world:
  "runnable_jobs clk js i w = (Inr ps, w') \<Longrightarrow> w' = w\<lparr>ticks := ticks w + length js\<rparr>"
proof (induction js arbitrary: i w ps w')
  case Nil
  then show ?case by simp
next
  case (Cons j js)
  from runnable_jobs_step [OF Cons.prems] obtain t ps' where
    r: "runnable_jobs clk js (Suc i) (w\<lparr>ticks := Suc (ticks w)\<rparr>) = (Inr ps', w')"
    by blast
  from Cons.IH [OF r] show ?case by simp
qed

lemma runnable_jobs_configured:
  "runnable_jobs clk js i w = (Inr ps, w') \<Longrightarrow> \<forall>j\<in>set js. next_run j \<noteq> None"
proof (induction js arbitrary: i w ps w')
  case Nil
  then show ?case by simp
next
  case (Cons j js)
  from runnable_jobs_step [OF Cons.prems] obtain t ps' where
    n: "next_run j = Some t"
    and r: "runnable_jobs clk js (Suc i) (w\<lparr>ticks := Suc (ticks w)\<rparr>) = (Inr ps', w')"
    by blast
  from Cons.IH [OF r] n show ?case by simp
qed

lemma runnable_jobs_set:
  "runnable_jobs clk js i w = (Inr ps, w') \<Longrightarrow>
     set ps = {(i + k, js ! k) | k. k < length js
                \<and> (\<exists>t. next_run (js ! k) = Some t \<and> t \<le> clk (ticks w + k))}"
proof (induction js arbitrary: i w ps w')
  case Nil
  then show ?case by simp
next
  case (Cons j js)
  from runnable_jobs_step [OF Cons.prems] obtain t ps' where
    n: "next_run j = Some t"
    and r: "runnable_jobs clk js (Suc i) (w\<lparr>ticks := Suc (ticks w)\<rparr>) = (Inr ps', w')"
    and p: "ps = (if t \<le> clk (ticks w) then (i, j) # ps' else ps')"
    by blast
  have ih: "set ps' = {(Suc i + k, js ! k) | k. k < length js
      \<and> (\<exists>t. next_run (js ! k) = Some t \<and> t \<le> clk (Suc (ticks w) + k))}"
    using Cons.IH [OF r] by simp
  have split: "{(i + k, (j # js) ! k) | k. k < length (j # js)
        \<and> (\<exists>u. next_run ((j # js) ! k) = Some u \<and> u \<le> clk (ticks w + k))}
     = (if t \<le> clk (ticks w) then {(i, j)} else {}) \<union>
       {(Suc i + k, js ! k) | k. k < length js
          \<and> (\<exists>u. next_run (js ! k) = Some u \<and> u \<le> clk (Suc (ticks w) + k))}"
    (is "?L = ?A \<union> ?B")
  proof (intro set_eqI iffI)
    fix x assume "x \<in> ?L"
    then obtain k u where x: "x = (i + k, (j # js) ! k)" "k < length (j # js)"
      "next_run ((j # js) ! k) = Some u" "u \<le> clk (ticks w + k)" by blast
    show "x \<in> ?A \<union> ?B"
    proof (cases k)
      case 0
      then show ?thesis using x n by auto
    next
      case (Suc k')
      then have "x = (Suc i + k', js ! k')" "k' < length js" "next_run (js ! k') = Some u"
        "u \<le> clk (Suc (ticks w) + k')" using x by simp_all
      then show ?thesis by blast
    qed
  next
    fix x assume "x \<in> ?A \<union> ?B"
    then consider "x \<in> ?A" | "x \<in> ?B" by blast
    then show "x \<in> ?L"
    proof cases
      case 1
      then have "x = (i + 0, (j # js) ! 0)" "0 < length (j # js)"
        "next_run ((j # js) ! 0) = Some t" "t \<le> clk (ticks w + 0)"
        using n by (simp_all split: if_splits)
      then show ?thesis by blast
    next
      case 2
      then obtain k u where "x = (Suc i + k, js ! k)" "k < length js"
        "next_run (js ! k) = Some u" "u \<le> clk (Suc (ticks w) + k)" by blast
      then have "x = (i + Suc k, (j # js) ! Suc k)" "Suc k < length (j # js)"
        "next_run ((j # js) ! Suc k) = Some u" "u \<le> clk (ticks w + Suc k)" by simp_all
      then show ?thesis by blast
    qed
  qed
  show ?case using p ih split by auto
qed

lemma runnable_jobs_lower:
  "runnable_jobs clk js i w = (Inr ps, w') \<Longrightarrow> \<forall>p\<in>set ps. i \<le> fst p"
  using runnable_jobs_set [of clk js i w ps w'] by auto

lemma runnable_jobs_increasing:
  "runnable_jobs clk js i w = (Inr ps, w') \<Longrightarrow> sorted_wrt (<) (map fst ps)"
proof (induction js arbitrary: i w ps w')
  case Nil
  then show ?case by simp
next
  case (Cons j js)
  from runnable_jobs_step [OF Cons.prems] obtain t ps' where
    r: "runnable_jobs clk js (Suc i) (w\<lparr>ticks := Suc (ticks w)\<rparr>) = (Inr ps', w')"
    and p: "ps = (if t \<le> clk (ticks w) then (i, j) # ps' else ps')"
    by blast
  have "\<forall>p\<in>set ps'. i < fst p"
    using runnable_jobs_lower [OF r] by force
  then show ?case using Cons.IH [OF r] p by auto
qed

lemma runnable_jobs_total:
  "\<forall>j\<in>set js. next_run j \<noteq> None \<Longrightarrow>
     \<exists>ps. runnable_jobs clk js i w = (Inr ps, w\<lparr>ticks := ticks w + length js\<rparr>)"
proof (induction js arbitrary: i w)
  case Nil
  then show ?case by simp
next
  case (Cons j js)
  then obtain t where n: "next_run j = Some t" by auto
  from Cons obtain ps where
    "runnable_jobs clk js (Suc i) (w\<lparr>ticks := Suc (ticks w)\<rparr>)
       = (Inr ps, w\<lparr>ticks := Suc (ticks w)\<rparr>\<lparr>ticks := ticks (w\<lparr>ticks := Suc (ticks w)\<rparr>) + length js\<rparr>)"
    by (metis list.set_intros(2))
  then show ?case using n by (simp add: should_run_cases)
qed

lemma runnable_jobs_fails:
  "\<exists>j\<in>set js. next_run j = None \<Longrightarrow> \<exists>e w'. runnable_jobs clk js i w = (Inl e, w')"
proof -
  assume a: "\<exists>j\<in>set js. next_run j = None"
  obtain r w' where rw: "runnable_jobs clk js i w = (r, w')" by (cases "runnable_jobs clk js i w")
  show ?thesis
  proof (cases r)
    case (Inl e)
    then show ?thesis using rw by blast
  next
    case (Inr ps)
    then show ?thesis using rw runnable_jobs_configured [of clk js i w ps w'] a by auto
  qed
qed

subsection \<open>Sorting the due jobs\<close>

text \<open>
  On jobs that have a \<^verbatim>\<open>next_run\<close> the order of \<^verbatim>\<open>__lt__\<close> is the order of these
  times. The sort then puts the due jobs in ascending order of \<^verbatim>\<open>next_run\<close>, and jobs
  with the same \<^verbatim>\<open>next_run\<close> in the order of their positions.
\<close>

lemma Job_lt_scheduled:
  "next_run a = Some x \<Longrightarrow> next_run b = Some y \<Longrightarrow> Job_lt a b = Inr (x < y)"
  by (simp add: Job_lt_def)

lemma insert_sorted_scheduled:
  assumes "next_run (snd x) \<noteq> None" and "\<forall>p\<in>set ys. next_run (snd p) \<noteq> None"
    and "sorted_wrt earlier ys" and "\<forall>p\<in>set ys. fst p < fst x"
  shows "\<exists>r. insert_sorted (\<lambda>a b. Job_lt (snd a) (snd b)) x ys = Inr r
     \<and> set r = insert x (set ys) \<and> length r = Suc (length ys) \<and> sorted_wrt earlier r"
  using assms
proof (induction ys)
  case Nil
  then show ?case by simp
next
  case (Cons y ys)
  obtain a b where ab: "next_run (snd x) = Some a" "next_run (snd y) = Some b"
    using Cons.prems(1,2) by auto
  have lt: "Job_lt (snd x) (snd y) = Inr (a < b)"
    using ab by (rule Job_lt_scheduled)
  show ?case
  proof (cases "a < b")
    case True
    have "earlier x y" using True ab by (simp add: earlier_def)
    moreover have "earlier x z" if "z \<in> set ys" for z
    proof -
      have "earlier y z" using Cons.prems(3) that by simp
      then show ?thesis using True ab by (auto simp: earlier_def)
    qed
    ultimately have "sorted_wrt earlier (x # y # ys)"
      using Cons.prems(3) by auto
    then show ?thesis using lt True by simp
  next
    case False
    from Cons.IH obtain r where
      r: "insert_sorted (\<lambda>a b. Job_lt (snd a) (snd b)) x ys = Inr r"
        "set r = insert x (set ys)" "length r = Suc (length ys)" "sorted_wrt earlier r"
      using Cons.prems by auto
    have "earlier y x"
      using False ab Cons.prems(4) by (auto simp: earlier_def)
    then have "sorted_wrt earlier (y # r)"
      using r(2,4) Cons.prems(3) by auto
    then show ?thesis using lt False r by (auto simp: insert_commute)
  qed
qed

lemma sorted_from_scheduled:
  assumes "\<forall>p\<in>set (acc @ xs). next_run (snd p) \<noteq> None"
    and "sorted_wrt earlier acc" and "sorted_wrt (<) (map fst xs)"
    and "\<forall>p\<in>set acc. \<forall>x\<in>set xs. fst p < fst x"
  shows "\<exists>r. sorted_from (\<lambda>a b. Job_lt (snd a) (snd b)) acc xs = Inr r
     \<and> set r = set acc \<union> set xs \<and> length r = length acc + length xs \<and> sorted_wrt earlier r"
  using assms
proof (induction xs arbitrary: acc)
  case Nil
  then show ?case by simp
next
  case (Cons x xs)
  have "\<exists>r. insert_sorted (\<lambda>a b. Job_lt (snd a) (snd b)) x acc = Inr r
     \<and> set r = insert x (set acc) \<and> length r = Suc (length acc) \<and> sorted_wrt earlier r"
    using Cons.prems by (intro insert_sorted_scheduled) auto
  then obtain acc' where
    a: "insert_sorted (\<lambda>a b. Job_lt (snd a) (snd b)) x acc = Inr acc'"
      "set acc' = insert x (set acc)" "length acc' = Suc (length acc)" "sorted_wrt earlier acc'"
    by blast
  have "\<exists>r. sorted_from (\<lambda>a b. Job_lt (snd a) (snd b)) acc' xs = Inr r
     \<and> set r = set acc' \<union> set xs \<and> length r = length acc' + length xs \<and> sorted_wrt earlier r"
    using Cons.prems a by (intro Cons.IH) auto
  then show ?case using a by auto
qed

lemma py_sorted_scheduled:
  assumes "\<forall>p\<in>set ps. next_run (snd p) \<noteq> None" and "sorted_wrt (<) (map fst ps)"
  shows "\<exists>qs. py_sorted (\<lambda>a b. Job_lt (snd a) (snd b)) ps = Inr qs
     \<and> set qs = set ps \<and> length qs = length ps \<and> sorted_wrt earlier qs"
  unfolding py_sorted_def
  using sorted_from_scheduled [of "[]" ps] assms by simp

subsection \<open>The loops over the jobs\<close>

lemma run_each_trace:
  "run_each clk is s w = (r, s', w') \<Longrightarrow>
     \<exists>k\<le>length is. trace w' = trace w @ map Ran (take k is) \<and> (r = Inr () \<longrightarrow> k = length is)"
proof (induction "is" arbitrary: s w)
  case Nil
  then show ?case by simp
next
  case (Cons i "is")
  obtain r1 j1 w1 where run1: "run clk (jobs s ! i) (w\<lparr>trace := trace w @ [Ran i]\<rparr>) = (r1, j1, w1)"
    by (cases "run clk (jobs s ! i) (w\<lparr>trace := trace w @ [Ran i]\<rparr>)")
  have t1: "trace w1 = trace w @ [Ran i]"
    using run_frame(2) [OF run1] by simp
  show ?case
  proof (cases r1)
    case (Inl e)
    then have "r = Inl e" "w' = w1"
      using Cons.prems run1 by simp_all
    then have "trace w' = trace w @ map Ran (take 1 (i # is)) \<and> (r = Inr () \<longrightarrow> 1 = length (i # is))"
      using t1 by simp
    moreover have "1 \<le> length (i # is)" by simp
    ultimately show ?thesis by blast
  next
    case (Inr u)
    then have "run_each clk is (s\<lparr>jobs := (jobs s)[i := j1]\<rparr>) w1 = (r, s', w')"
      using Cons.prems run1 by simp
    from Cons.IH [OF this] obtain k where
      k: "k \<le> length is" "trace w' = trace w1 @ map Ran (take k is)" "r = Inr () \<longrightarrow> k = length is"
      by blast
    then have "Suc k \<le> length (i # is) \<and> trace w' = trace w @ map Ran (take (Suc k) (i # is))
        \<and> (r = Inr () \<longrightarrow> Suc k = length (i # is))"
      using t1 by simp
    then show ?thesis by blast
  qed
qed

lemma run_each_length:
  "run_each clk is s w = (r, s', w') \<Longrightarrow> length (jobs s') = length (jobs s)"
proof (induction "is" arbitrary: s w)
  case Nil
  then show ?case by simp
next
  case (Cons i "is")
  obtain r1 j1 w1 where run1: "run clk (jobs s ! i) (w\<lparr>trace := trace w @ [Ran i]\<rparr>) = (r1, j1, w1)"
    by (cases "run clk (jobs s ! i) (w\<lparr>trace := trace w @ [Ran i]\<rparr>)")
  show ?case
  proof (cases r1)
    case (Inl e)
    then show ?thesis using Cons.prems run1 by auto
  next
    case (Inr u)
    then have "run_each clk is (s\<lparr>jobs := (jobs s)[i := j1]\<rparr>) w1 = (r, s', w')"
      using Cons.prems run1 by simp
    from Cons.IH [OF this] show ?thesis by simp
  qed
qed

lemma run_each_untouched:
  "run_each clk is s w = (r, s', w') \<Longrightarrow> n \<notin> set is \<Longrightarrow> jobs s' ! n = jobs s ! n"
proof (induction "is" arbitrary: s w)
  case Nil
  then show ?case by simp
next
  case (Cons i "is")
  obtain r1 j1 w1 where run1: "run clk (jobs s ! i) (w\<lparr>trace := trace w @ [Ran i]\<rparr>) = (r1, j1, w1)"
    by (cases "run clk (jobs s ! i) (w\<lparr>trace := trace w @ [Ran i]\<rparr>)")
  have ni: "n \<noteq> i" "n \<notin> set is" using Cons.prems(2) by simp_all
  show ?case
  proof (cases r1)
    case (Inl e)
    then show ?thesis using Cons.prems(1) run1 ni by auto
  next
    case (Inr u)
    then have "run_each clk is (s\<lparr>jobs := (jobs s)[i := j1]\<rparr>) w1 = (r, s', w')"
      using Cons.prems run1 by simp
    from Cons.IH [OF this ni(2)] ni(1) show ?thesis by simp
  qed
qed

lemma run_each_updated:
  assumes "run_each clk is s w = (Inr (), s', w')"
    and "distinct is" and "\<forall>i\<in>set is. i < length (jobs s)" and "k < length is"
  shows "\<exists>u p. unit (jobs s ! (is ! k)) = Some u
     \<and> timedelta u (interval (jobs s ! (is ! k))) = Inr p
     \<and> jobs s' ! (is ! k)
         = bookkeeping (clk (ticks w + 2 * k)) (clk (Suc (ticks w + 2 * k))) p (jobs s ! (is ! k))"
  using assms
proof (induction "is" arbitrary: s w k)
  case Nil
  then show ?case by simp
next
  case (Cons i "is")
  let ?w0 = "w\<lparr>trace := trace w @ [Ran i]\<rparr>"
  obtain r1 j1 w1 where run1: "run clk (jobs s ! i) ?w0 = (r1, j1, w1)"
    by (cases "run clk (jobs s ! i) ?w0")
  have r1: "r1 = Inr ()"
    using Cons.prems(1) run1 by (cases r1) auto
  let ?s1 = "s\<lparr>jobs := (jobs s)[i := j1]\<rparr>"
  have rest: "run_each clk is ?s1 w1 = (Inr (), s', w')"
    using Cons.prems(1) run1 r1 by simp
  from run_Inr [OF run1 [unfolded r1]] obtain u p where
    up: "unit (jobs s ! i) = Some u" "timedelta u (interval (jobs s ! i)) = Inr p"
      "j1 = bookkeeping (clk (ticks w)) (clk (Suc (ticks w))) p (jobs s ! i)"
      "ticks w1 = ticks w + 2"
    by auto
  have i: "i < length (jobs s)" "i \<notin> set is" "distinct is" "\<forall>n\<in>set is. n < length (jobs ?s1)"
    using Cons.prems(2,3) by simp_all
  show ?case
  proof (cases k)
    case 0
    have "jobs s' ! i = jobs ?s1 ! i"
      using run_each_untouched [OF rest i(2)] .
    then have "jobs s' ! i = j1" using i(1) by simp
    then show ?thesis using 0 up by auto
  next
    case (Suc k')
    then have k': "k' < length is" using Cons.prems(4) by simp
    then have ne: "is ! k' \<noteq> i" using i(2) by (metis nth_mem)
    from Cons.IH [OF rest i(3) i(4) k'] obtain u' p' where
      "unit (jobs ?s1 ! (is ! k')) = Some u'"
      "timedelta u' (interval (jobs ?s1 ! (is ! k'))) = Inr p'"
      "jobs s' ! (is ! k')
         = bookkeeping (clk (ticks w1 + 2 * k')) (clk (Suc (ticks w1 + 2 * k'))) p' (jobs ?s1 ! (is ! k'))"
      by blast
    then show ?thesis using Suc ne up(4) by auto
  qed
qed

lemma sleep_Inr: "sleep d w = (Inr u, w') \<Longrightarrow> w' = w\<lparr>trace := trace w @ [Slept d]\<rparr>"
  by (auto simp: sleep_def split: if_splits)

lemma run_all_from_step:
  assumes "run_all_from clk d (i # is) s w = (Inr (), s', w')"
  obtains j1 w1 where
    "run clk (jobs s ! i) (w\<lparr>trace := trace w @ [Ran i]\<rparr>) = (Inr (), j1, w1)"
    "run_all_from clk d is (s\<lparr>jobs := (jobs s)[i := j1]\<rparr>) (w1\<lparr>trace := trace w1 @ [Slept d]\<rparr>)
       = (Inr (), s', w')"
proof -
  obtain r1 j1 w1 where run1: "run clk (jobs s ! i) (w\<lparr>trace := trace w @ [Ran i]\<rparr>) = (r1, j1, w1)"
    by (cases "run clk (jobs s ! i) (w\<lparr>trace := trace w @ [Ran i]\<rparr>)")
  have r1: "r1 = Inr ()"
    using assms run1 by (cases r1) auto
  obtain r2 w2 where sl: "sleep d w1 = (r2, w2)"
    by (cases "sleep d w1")
  have r2: "r2 = Inr ()"
    using assms run1 r1 sl by (cases r2) auto
  have "w2 = w1\<lparr>trace := trace w1 @ [Slept d]\<rparr>"
    using sleep_Inr sl r2 by blast
  then have "run_all_from clk d is (s\<lparr>jobs := (jobs s)[i := j1]\<rparr>) (w1\<lparr>trace := trace w1 @ [Slept d]\<rparr>)
       = (Inr (), s', w')"
    using assms run1 r1 sl r2 by simp
  then show ?thesis using that run1 r1 by blast
qed





lemma run_all_from_configured:
  "run_all_from clk d is s w = (Inr (), s', w') \<Longrightarrow>
     \<forall>i\<in>set is. i < length (jobs s) \<longrightarrow> job_func (jobs s ! i) \<noteq> None"
proof (induction "is" arbitrary: s w)
  case Nil
  then show ?case by simp
next
  case (Cons i "is")
  let ?w0 = "w\<lparr>trace := trace w @ [Ran i]\<rparr>"
  from run_all_from_step [OF Cons.prems(1)] obtain j1 w1 where
    run1: "run clk (jobs s ! i) ?w0 = (Inr (), j1, w1)"
    and rest: "run_all_from clk d is (s\<lparr>jobs := (jobs s)[i := j1]\<rparr>) (w1\<lparr>trace := trace w1 @ [Slept d]\<rparr>)
       = (Inr (), s', w')"
    by blast
  let ?s1 = "s\<lparr>jobs := (jobs s)[i := j1]\<rparr>"
  have h: "job_func (jobs s ! i) \<noteq> None"
    using run_Inr [OF run1] by blast
  have j1: "job_func j1 = job_func (jobs s ! i)"
    using run_frame(1) [OF run1] .
  have "job_func (jobs s ! n) \<noteq> None" if "n \<in> set is" "n < length (jobs s)" for n
  proof -
    have "job_func (jobs ?s1 ! n) \<noteq> None"
      using Cons.IH [OF rest] that by simp
    then show ?thesis using j1 that(2) by (cases "n = i") simp_all
  qed
  then show ?case using h by simp
qed

subsection \<open>The minimum of the collection\<close>

lemma min_from_Inr:
  assumes "next_run m = Some a" and "\<forall>j\<in>set xs. next_run j \<noteq> None"
  shows "\<exists>j t. min_from m xs = Inr j \<and> j \<in> set (m # xs) \<and> next_run j = Some t
     \<and> (\<forall>x\<in>set (m # xs). \<forall>t'. next_run x = Some t' \<longrightarrow> t \<le> t')"
  using assms
proof (induction xs arbitrary: m a)
  case Nil
  then show ?case by simp
next
  case (Cons x xs)
  then obtain b where b: "next_run x = Some b" by auto
  let ?m = "if b < a then x else m"
  have lt: "Job_lt x m = Inr (b < a)"
    using b Cons.prems(1) by (simp add: Job_lt_def)
  have nm: "next_run ?m = Some (min b a)"
    using b Cons.prems(1) by (simp add: min_def)
  have rest: "\<forall>j\<in>set xs. next_run j \<noteq> None"
    using Cons.prems(2) by simp
  from Cons.IH [OF nm rest] obtain j t where
    j: "min_from ?m xs = Inr j" "j \<in> set (?m # xs)" "next_run j = Some t"
      "\<forall>y\<in>set (?m # xs). \<forall>t'. next_run y = Some t' \<longrightarrow> t \<le> t'"
    by blast
  have "min_from m (x # xs) = Inr j"
    using lt j(1) by simp
  moreover have "j \<in> set (m # x # xs)"
    using j(2) by (auto split: if_splits)
  moreover have "\<forall>y\<in>set (m # x # xs). \<forall>t'. next_run y = Some t' \<longrightarrow> t \<le> t'"
  proof -
    have "t \<le> min b a" using j(4) nm by simp
    then show ?thesis using j(4) b Cons.prems(1) by auto
  qed
  ultimately show ?case using j(3) by blast
qed

subsection \<open>Runs that complete\<close>

lemma timedelta_unit: "timedelta u n = Inr p \<Longrightarrow>
    u \<in> {''seconds'', ''minutes'', ''hours'', ''days'', ''weeks''}"
  by (auto simp: timedelta_def unit_us_def split: option.splits if_splits)

lemma schedule_next_run_succeeds:
  assumes "unit j = Some u" and "timedelta u (interval j) = Inr p"
    and "last_run j \<noteq> None"
    and "0 \<le> clk (ticks w) + p" and "clk (ticks w) + p < MAX_DATETIME"
    and "case at_time j of None \<Rightarrow> True | Some a \<Rightarrow> u = ''days'' \<and> 0 \<le> a \<and> a < US_PER_DAY"
  shows "schedule_next_run clk j w =
     (Inr (),
      j\<lparr>period := Some p,
        next_run := Some (case at_time j of
                       None \<Rightarrow> clk (ticks w) + p
                     | Some a \<Rightarrow> (clk (ticks w) + p) div US_PER_DAY * US_PER_DAY
                                   + a div US_PER_SECOND * US_PER_SECOND)\<rparr>,
      w\<lparr>ticks := Suc (ticks w)\<rparr>)"
proof -
  have u: "unit j \<in> {Some ''seconds'', Some ''minutes'', Some ''hours'', Some ''days'', Some ''weeks''}"
    using timedelta_unit [OF assms(2)] assms(1) by auto
  have add: "dt_add (clk (ticks w)) p = Inr (clk (ticks w) + p)"
    using assms(4,5) by (simp add: dt_add_def)
  show ?thesis
  proof (cases "at_time j")
    case None
    then show ?thesis
      using u assms(1,2) add by (simp add: schedule_next_run_def now_def Let_def)
  next
    case (Some a)
    then have a: "u = ''days''" "0 \<le> a" "a < US_PER_DAY"
      using assms(6) by simp_all
    have rep: "replace (clk (ticks w) + p) a
        = Inr ((clk (ticks w) + p) div US_PER_DAY * US_PER_DAY + a div US_PER_SECOND * US_PER_SECOND)"
      using a by (simp add: replace_def)
    obtain y where y: "last_run j = Some y"
      using assms(3) by auto
    show ?thesis
      using u assms(1,2) add rep Some a(1) y
      by (simp add: schedule_next_run_def now_def Let_def)
  qed
qed

lemma run_never_fails:
  assumes "never_fails clk j"
  shows "\<exists>u p. unit j = Some u \<and> timedelta u (interval j) = Inr p
     \<and> run clk j w =
         (Inr (), bookkeeping (clk (ticks w)) (clk (Suc (ticks w))) p j,
          w\<lparr>env := effect j (env w), ticks := ticks w + 2\<rparr>)"
proof -
  from assms obtain f u p where
    f: "job_func j = Some f" "\<forall>e. fst (f e) = None"
    and u: "unit j = Some u" "timedelta u (interval j) = Inr p"
    and r: "\<forall>k. 0 \<le> clk k + p \<and> clk k + p < MAX_DATETIME"
    and a: "case at_time j of None \<Rightarrow> True | Some a \<Rightarrow> u = ''days'' \<and> 0 \<le> a \<and> a < US_PER_DAY"
    unfolding never_fails_def by blast
  obtain x where x: "f (env w) = (None, x)"
    using f(2) by (metis prod.collapse)
  have e: "effect j (env w) = x"
    using f(1) x by (simp add: effect_def)
  let ?j = "j\<lparr>last_run := Some (clk (ticks w))\<rparr>"
  let ?w = "w\<lparr>env := x, ticks := Suc (ticks w)\<rparr>"
  have "schedule_next_run clk ?j ?w =
     (Inr (),
      ?j\<lparr>period := Some p,
        next_run := Some (case at_time ?j of
                       None \<Rightarrow> clk (ticks ?w) + p
                     | Some a \<Rightarrow> (clk (ticks ?w) + p) div US_PER_DAY * US_PER_DAY
                                   + a div US_PER_SECOND * US_PER_SECOND)\<rparr>,
      ?w\<lparr>ticks := Suc (ticks ?w)\<rparr>)"
    using u r a by (intro schedule_next_run_succeeds) simp_all
  then have "run clk j w =
     (Inr (), bookkeeping (clk (ticks w)) (clk (Suc (ticks w))) p j,
      w\<lparr>env := effect j (env w), ticks := ticks w + 2\<rparr>)"
    using f(1) x e by (auto simp: run_def now_def bookkeeping_def split: option.splits)
  then show ?thesis using u by blast
qed

lemma run_each_total:
  assumes "distinct is" and "\<forall>i\<in>set is. i < length (jobs s) \<and> never_fails clk (jobs s ! i)"
  shows "\<exists>s' w'. run_each clk is s w = (Inr (), s', w')
     \<and> env w' = foldl (\<lambda>e i. effect (jobs s ! i) e) (env w) is"
  using assms
proof (induction "is" arbitrary: s w)
  case Nil
  then show ?case by simp
next
  case (Cons i "is")
  let ?w0 = "w\<lparr>trace := trace w @ [Ran i]\<rparr>"
  have nf: "never_fails clk (jobs s ! i)" and i: "i < length (jobs s)" "i \<notin> set is"
    using Cons.prems by simp_all
  from run_never_fails [OF nf, of ?w0] obtain j1 where
    run1: "run clk (jobs s ! i) ?w0
      = (Inr (), j1, ?w0\<lparr>env := effect (jobs s ! i) (env ?w0), ticks := ticks ?w0 + 2\<rparr>)"
    by blast
  let ?w1 = "?w0\<lparr>env := effect (jobs s ! i) (env ?w0), ticks := ticks ?w0 + 2\<rparr>"
  let ?s1 = "s\<lparr>jobs := (jobs s)[i := j1]\<rparr>"
  have same: "jobs ?s1 ! n = jobs s ! n" if "n \<in> set is" for n
    using that i(2) by (cases "n = i") simp_all
  have "\<forall>n\<in>set is. n < length (jobs ?s1) \<and> never_fails clk (jobs ?s1 ! n)"
    using Cons.prems(2) same by simp
  moreover have "distinct is" using Cons.prems(1) by simp
  ultimately obtain s' w' where
    rest: "run_each clk is ?s1 ?w1 = (Inr (), s', w')"
      "env w' = foldl (\<lambda>e n. effect (jobs ?s1 ! n) e) (env ?w1) is"
    using Cons.IH [of ?s1 ?w1] by blast
  have "foldl (\<lambda>e n. effect (jobs ?s1 ! n) e) (env ?w1) is
      = foldl (\<lambda>e n. effect (jobs s ! n) e) (env ?w1) is"
    using same by (intro foldl_cong) auto
  then have "env w' = foldl (\<lambda>e n. effect (jobs s ! n) e) (env w) (i # is)"
    using rest(2) by simp
  moreover have "run_each clk (i # is) s w = (Inr (), s', w')"
    using run1 rest(1) by simp
  ultimately show ?case by blast
qed


subsection \<open>Running the collection\<close>

lemma unconfigured_None: "unconfigured j \<Longrightarrow> job_func j = None \<and> next_run j = None"
proof (induction rule: unconfigured.induct)
  case (created n)
  show ?case by (simp add: Job_init_def)
next
  case (plural j j')
  then show ?case by (auto simp: seconds_def minutes_def hours_def days_def weeks_def)
next
  case (singular j j')
  then show ?case
    by (auto simp: second_def minute_def hour_def day_def week_def
        seconds_def minutes_def hours_def days_def weeks_def split: if_splits)
next
  case (anchored j py_int time_str j')
  then show ?case
    by (cases "parse_HH_MM py_int time_str") (auto simp: at_job_cases split: if_splits)
qed

lemma sorted_jobs_Nil: "sorted_jobs [] = Inr []"
  by (simp add: sorted_jobs_def py_sorted_def)

lemma ran_once:
  "distinct xs \<Longrightarrow> x \<in> set xs \<Longrightarrow> length (filter ((=) (Ran x)) (map Ran xs)) = 1"
  by (induction xs) (auto simp: filter_empty_conv)

lemma run_pending_completes:
  assumes conf: "\<forall>j\<in>set (jobs s). next_run j \<noteq> None"
    and nf: "\<forall>i<length (jobs s). the (next_run (jobs s ! i)) \<le> clk (ticks w + i)
          \<longrightarrow> never_fails clk (jobs s ! i)"
  obtains order s' w' where
    "run_pending clk s w = (Inr (), s', w')"
    "distinct order"
    "set order = {i. i < length (jobs s) \<and> the (next_run (jobs s ! i)) \<le> clk (ticks w + i)}"
    "sorted (map (\<lambda>i. the (next_run (jobs s ! i))) order)"
    "trace w' = trace w @ map Ran order"
    "env w' = foldl (\<lambda>e i. effect (jobs s ! i) e) (env w) order"
    "length (jobs s') = length (jobs s)"
    "\<forall>n. n \<notin> set order \<longrightarrow> jobs s' ! n = jobs s ! n"
    "\<forall>m<length order. \<exists>u p. unit (jobs s ! (order ! m)) = Some u
        \<and> timedelta u (interval (jobs s ! (order ! m))) = Inr p
        \<and> jobs s' ! (order ! m)
            = bookkeeping (clk (ticks w + length (jobs s) + 2 * m))
                (clk (Suc (ticks w + length (jobs s) + 2 * m))) p (jobs s ! (order ! m))"
proof -
  let ?n = "length (jobs s)"
  let ?w1 = "w\<lparr>ticks := ticks w + ?n\<rparr>"
  let ?key = "\<lambda>i. the (next_run (jobs s ! i))"
  from runnable_jobs_total [OF conf] obtain ps where
    ps: "runnable_jobs clk (jobs s) 0 w = (Inr ps, ?w1)" by blast
  have sp: "set ps = {(k, jobs s ! k) | k. k < ?n
      \<and> (\<exists>t. next_run (jobs s ! k) = Some t \<and> t \<le> clk (ticks w + k))}"
    using runnable_jobs_set [OF ps] by simp
  have pc: "\<forall>p\<in>set ps. next_run (snd p) \<noteq> None"
    using sp conf by auto
  from py_sorted_scheduled [OF pc runnable_jobs_increasing [OF ps]] obtain qs where
    qs: "py_sorted (\<lambda>a b. Job_lt (snd a) (snd b)) ps = Inr qs"
      "set qs = set ps" "length qs = length ps" "sorted_wrt earlier qs"
    by blast
  let ?order = "map fst qs"
  have so: "sorted_jobs ps = Inr ?order"
    using qs(1) by (simp add: sorted_jobs_def)
  have q: "snd p = jobs s ! fst p" if "p \<in> set qs" for p
    using that qs(2) sp by auto
  have st: "set ?order = {i. i < ?n \<and> ?key i \<le> clk (ticks w + i)}"
  proof (intro set_eqI iffI)
    fix i assume "i \<in> set ?order"
    then obtain j where "(i, j) \<in> set ps" using qs(2) by force
    then show "i \<in> {i. i < ?n \<and> ?key i \<le> clk (ticks w + i)}"
      using sp by auto
  next
    fix i assume i: "i \<in> {i. i < ?n \<and> ?key i \<le> clk (ticks w + i)}"
    then obtain t where "next_run (jobs s ! i) = Some t"
      using conf by (metis (mono_tags, lifting) mem_Collect_eq not_None_eq nth_mem)
    then have "(i, jobs s ! i) \<in> set ps" using sp i by auto
    then show "i \<in> set ?order" using qs(2) by force
  qed
  have dp: "distinct (map fst ps)"
    using runnable_jobs_increasing [OF ps] by (simp add: strict_sorted_iff)
  have "distinct ps" using dp by (simp add: distinct_map)
  then have "card (set qs) = length qs"
    using qs(2,3) by (simp add: distinct_card)
  then have "distinct qs" by (rule card_distinct)
  moreover have "inj_on fst (set qs)"
    using dp qs(2) by (simp add: distinct_map)
  ultimately have d: "distinct ?order"
    by (simp add: distinct_map)
  have "sorted_wrt (\<lambda>a b. the (next_run (snd a)) \<le> the (next_run (snd b))) qs"
    using qs(4) by (rule sorted_wrt_mono_rel [rotated]) (auto simp: earlier_def)
  then have s0: "sorted (map (\<lambda>p. the (next_run (snd p))) qs)"
    by (simp add: sorted_map)
  have me: "map ?key ?order = map (\<lambda>p. the (next_run (snd p))) qs"
    using q by simp
  have sk: "sorted (map ?key ?order)"
    by (simp only: me s0)
  have bound: "\<forall>i\<in>set ?order. i < length (jobs s)"
    using st by auto
  have "\<forall>i\<in>set ?order. i < length (jobs s) \<and> never_fails clk (jobs s ! i)"
    using st nf by auto
  from run_each_total [OF d this, of ?w1] obtain s' w' where
    re: "run_each clk ?order s ?w1 = (Inr (), s', w')"
    and en: "env w' = foldl (\<lambda>e i. effect (jobs s ! i) e) (env ?w1) ?order"
    by blast
  have rp: "run_pending clk s w = (Inr (), s', w')"
    using ps so re by (simp add: run_pending_def)
  have tr: "trace w' = trace w @ map Ran ?order"
    using run_each_trace [OF re] by auto
  have up: "\<forall>m<length ?order. \<exists>u p. unit (jobs s ! (?order ! m)) = Some u
        \<and> timedelta u (interval (jobs s ! (?order ! m))) = Inr p
        \<and> jobs s' ! (?order ! m)
            = bookkeeping (clk (ticks w + ?n + 2 * m))
                (clk (Suc (ticks w + ?n + 2 * m))) p (jobs s ! (?order ! m))"
  proof (intro allI impI)
    fix m assume "m < length ?order"
    from run_each_updated [OF re d bound this] show "\<exists>u p. unit (jobs s ! (?order ! m)) = Some u
        \<and> timedelta u (interval (jobs s ! (?order ! m))) = Inr p
        \<and> jobs s' ! (?order ! m)
            = bookkeeping (clk (ticks w + ?n + 2 * m))
                (clk (Suc (ticks w + ?n + 2 * m))) p (jobs s ! (?order ! m))"
      by simp
  qed
  have un: "\<forall>n. n \<notin> set ?order \<longrightarrow> jobs s' ! n = jobs s ! n"
    using run_each_untouched [OF re] by blast
  show ?thesis
    using that [OF rp d st sk tr _ run_each_length [OF re] un up] en by simp
qed

subsection \<open>The examples of the collection\<close>

lemma never_fails_capped:
  assumes "job_func j = Some (say name)" and "unit j = Some u"
    and "timedelta u (interval j) = Inr p" and "at_time j = None"
    and "0 \<le> t + p" and "t + 100 + p < MAX_DATETIME"
  shows "never_fails (capped t) j"
proof -
  have "0 \<le> capped t k + p \<and> capped t k + p < MAX_DATETIME" for k
  proof -
    have "0 \<le> int (min k 100)" "int (min k 100) \<le> 100" by simp_all
    then show ?thesis using assms(5,6) by (simp add: capped_def)
  qed
  moreover have "\<forall>e. fst (say name e) = None"
    by (simp add: say_def)
  ultimately show ?thesis
    using assms(1,2,3,4) unfolding never_fails_def by auto
qed

lemma never_fails_examples:
  "never_fails (capped eleven) (every_minute (say ''b''))"
  "never_fails (capped eleven) (every_second (say ''a''))"
  "never_fails (capped nine) (every_minute (say ''b''))"
  "never_fails (capped nine) (every_second (say ''a''))"
  "never_fails (capped nine) (every_three_hours (say ''c''))"
  by (rule never_fails_capped [where name = "''b''" and u = "''minutes''" and p = 60000000]
      never_fails_capped [where name = "''a''" and u = "''seconds''" and p = 1000000]
      never_fails_capped [where name = "''c''" and u = "''hours''" and p = 10800000000];
      simp add: example_values timedelta_def unit_us_def US_PER_DAY_def MAX_DATETIME_def
        eleven_def nine_def)+

lemma run_pending_capped_eleven:
  "run_pending (capped eleven) three_jobs world0 =
     (Inr (),
      \<lparr>jobs = [(every_minute (say ''b''))\<lparr>last_run := Some 63929386800000005, next_run := Some 63929386860000006\<rparr>,
               (every_second (say ''a''))\<lparr>last_run := Some 63929386800000003, next_run := Some 63929386801000004\<rparr>,
               every_three_hours (say ''c'')]\<rparr>,
      \<lparr>ticks = 7, env = [''a'', ''b''], trace = [Ran 1, Ran 0]\<rparr>)"
  by (simp add: example_values run_eval capped_def)



lemma run_pending_boom_first:
  "run_pending (ticking eleven) boom_first world0 =
     (Inl (UserError ''boom''), boom_first, \<lparr>ticks = 2, env = [], trace = [Ran 0]\<rparr>)"
  by (simp add: example_values run_eval)



lemma three_jobs_due_never_fail:
  "\<forall>i<length (jobs three_jobs).
      the (next_run (jobs three_jobs ! i)) \<le> capped eleven (ticks world0 + i)
        \<longrightarrow> never_fails (capped eleven) (jobs three_jobs ! i)"
proof (intro allI impI)
  fix i
  assume "i < length (jobs three_jobs)"
    and due: "the (next_run (jobs three_jobs ! i)) \<le> capped eleven (ticks world0 + i)"
  then consider "i = 0" | "i = 1" | "i = 2"
    by (auto simp: three_jobs_def less_Suc_eq)
  then show "never_fails (capped eleven) (jobs three_jobs ! i)"
  proof cases
    case 1
    then show ?thesis using never_fails_examples(1) by (simp add: three_jobs_def)
  next
    case 2
    then show ?thesis using never_fails_examples(2) by (simp add: three_jobs_def)
  next
    case 3
    then show ?thesis
      using due by (simp add: example_values capped_def eleven_def world0_def)
  qed
qed

subsection \<open>The claims on the collection\<close>

text \<open>
  C3, as amended. In a collection whose jobs all have a \<^verbatim>\<open>next_run\<close> and whose due jobs
  have runs that complete (the action raises in no environment and the rescheduling cannot
  fail), \<^verbatim>\<open>run_pending\<close> returns normally and has run exactly the jobs whose due predicate
  holds at the clock reading taken for them, each once, in ascending order of \<^verbatim>\<open>next_run\<close>:
  the calls of \<^verbatim>\<open>run\<close> are made in that order, the environment is what the actions of
  these jobs make of it in that order, and the jobs that are not due are as before. In
  particular, of two due jobs the one with the strictly earlier \<^verbatim>\<open>next_run\<close> comes first.
\<close>

theorem run_pending_order:
  assumes "\<forall>j\<in>set (jobs s). next_run j \<noteq> None"
    and "\<forall>i<length (jobs s). the (next_run (jobs s ! i)) \<le> clk (ticks w + i)
          \<longrightarrow> never_fails clk (jobs s ! i)"
  shows "\<exists>order. distinct order
     \<and> set order = {i. i < length (jobs s) \<and> the (next_run (jobs s ! i)) \<le> clk (ticks w + i)}
     \<and> sorted (map (\<lambda>i. the (next_run (jobs s ! i))) order)
     \<and> (\<forall>a b. a < length order \<and> b < length order
            \<and> the (next_run (jobs s ! (order ! a))) < the (next_run (jobs s ! (order ! b)))
          \<longrightarrow> a < b)
     \<and> fst (run_pending clk s w) = Inr ()
     \<and> trace (snd (snd (run_pending clk s w))) = trace w @ map Ran order
     \<and> env (snd (snd (run_pending clk s w)))
         = foldl (\<lambda>e i. effect (jobs s ! i) e) (env w) order
     \<and> (\<forall>n. n \<notin> set order \<longrightarrow> jobs (fst (snd (run_pending clk s w))) ! n = jobs s ! n)"
proof -
  let ?key = "\<lambda>i. the (next_run (jobs s ! i))"
  show ?thesis
  proof (rule run_pending_completes [OF assms])
    fix order s' w'
    assume c: "run_pending clk s w = (Inr (), s', w')"
      "distinct order"
      "set order = {i. i < length (jobs s) \<and> ?key i \<le> clk (ticks w + i)}"
      "sorted (map ?key order)"
      "trace w' = trace w @ map Ran order"
      "env w' = foldl (\<lambda>e i. effect (jobs s ! i) e) (env w) order"
      "length (jobs s') = length (jobs s)"
      "\<forall>n. n \<notin> set order \<longrightarrow> jobs s' ! n = jobs s ! n"
    and up: "\<forall>m<length order. \<exists>u p. unit (jobs s ! (order ! m)) = Some u
        \<and> timedelta u (interval (jobs s ! (order ! m))) = Inr p
        \<and> jobs s' ! (order ! m)
            = bookkeeping (clk (ticks w + length (jobs s) + 2 * m))
                (clk (Suc (ticks w + length (jobs s) + 2 * m))) p (jobs s ! (order ! m))"
    have before: "a < b" if "a < length order" "b < length order"
      "?key (order ! a) < ?key (order ! b)" for a b
    proof (rule ccontr)
      assume "\<not> a < b"
      then have "b \<le> a" by simp
      then have "map ?key order ! b \<le> map ?key order ! a"
        using c(4) that(1) by (simp add: sorted_iff_nth_mono del: nth_map)
      then show False using that by simp
    qed
    have r: "fst (run_pending clk s w) = Inr ()" "snd (snd (run_pending clk s w)) = w'"
      "fst (snd (run_pending clk s w)) = s'"
      using c(1) by simp_all
    show ?thesis
      unfolding r
    proof (intro exI [of _ order] conjI)
      show "distinct order" by (rule c(2))
      show "set order = {i. i < length (jobs s) \<and> ?key i \<le> clk (ticks w + i)}" by (rule c(3))
      show "sorted (map ?key order)" by (rule c(4))
      show "\<forall>a b. a < length order \<and> b < length order \<and> ?key (order ! a) < ?key (order ! b)
          \<longrightarrow> a < b"
        using before by blast
      show "Inr () = Inr ()" by (rule refl)
      show "trace w' = trace w @ map Ran order" by (rule c(5))
      show "env w' = foldl (\<lambda>e i. effect (jobs s ! i) e) (env w) order" by (rule c(6))
      show "\<forall>n. n \<notin> set order \<longrightarrow> jobs s' ! n = jobs s ! n" by (rule c(8))
    qed
  qed
qed

theorem run_pending_order_witness:
  "map next_run (jobs three_jobs)
     = [Some 63929379660000000, Some 63929379601000000, Some 63929390400000000]
   \<and> never_fails (capped eleven) (jobs three_jobs ! 0)
   \<and> never_fails (capped eleven) (jobs three_jobs ! 1)
   \<and> \<not> the (next_run (jobs three_jobs ! 2)) \<le> capped eleven (ticks world0 + 2)
   \<and> run_pending (capped eleven) three_jobs world0 =
     (Inr (),
      \<lparr>jobs = [(every_minute (say ''b''))\<lparr>last_run := Some 63929386800000005, next_run := Some 63929386860000006\<rparr>,
               (every_second (say ''a''))\<lparr>last_run := Some 63929386800000003, next_run := Some 63929386801000004\<rparr>,
               every_three_hours (say ''c'')]\<rparr>,
      \<lparr>ticks = 7, env = [''a'', ''b''], trace = [Ran 1, Ran 0]\<rparr>)
   \<and> (\<exists>order. distinct order
     \<and> set order = {i. i < length (jobs three_jobs)
          \<and> the (next_run (jobs three_jobs ! i)) \<le> capped eleven (ticks world0 + i)}
     \<and> sorted (map (\<lambda>i. the (next_run (jobs three_jobs ! i))) order)
     \<and> (\<forall>a b. a < length order \<and> b < length order
            \<and> the (next_run (jobs three_jobs ! (order ! a)))
                < the (next_run (jobs three_jobs ! (order ! b)))
          \<longrightarrow> a < b)
     \<and> fst (run_pending (capped eleven) three_jobs world0) = Inr ()
     \<and> trace (snd (snd (run_pending (capped eleven) three_jobs world0)))
         = trace world0 @ map Ran order
     \<and> env (snd (snd (run_pending (capped eleven) three_jobs world0)))
         = foldl (\<lambda>e i. effect (jobs three_jobs ! i) e) (env world0) order
     \<and> (\<forall>n. n \<notin> set order \<longrightarrow>
           jobs (fst (snd (run_pending (capped eleven) three_jobs world0))) ! n
             = jobs three_jobs ! n))"
proof -
  have h: "\<forall>j\<in>set (jobs three_jobs). next_run j \<noteq> None"
    by (simp add: example_values)
  have m: "map next_run (jobs three_jobs)
     = [Some 63929379660000000, Some 63929379601000000, Some 63929390400000000]"
    by (simp add: example_values)
  have n0: "never_fails (capped eleven) (jobs three_jobs ! 0)"
    using never_fails_examples(1) by (simp add: three_jobs_def)
  have n1: "never_fails (capped eleven) (jobs three_jobs ! 1)"
    using never_fails_examples(2) by (simp add: three_jobs_def)
  have n2: "\<not> the (next_run (jobs three_jobs ! 2)) \<le> capped eleven (ticks world0 + 2)"
    by (simp add: example_values capped_def eleven_def world0_def)
  show ?thesis
    by (rule conjI [OF m conjI [OF n0 conjI [OF n1 conjI [OF n2
          conjI [OF run_pending_capped_eleven
            run_pending_order [OF h three_jobs_due_never_fail]]]]]])
qed

text \<open>
  The claim C3 as stated fails where the action of a due job raises. Of two due jobs the
  first in the order raises: \<^verbatim>\<open>run_pending\<close> hands the error on, and the second due job
  is never run.
\<close>

theorem run_pending_raising_counterexample:
  "next_run (jobs boom_first ! 0) = Some 63929379601000000
   \<and> 63929379601000000 \<le> ticking eleven (ticks world0 + 0)
   \<and> next_run (jobs boom_first ! 1) = Some 63929379660000000
   \<and> 63929379660000000 \<le> ticking eleven (ticks world0 + 1)
   \<and> fst (run_pending (ticking eleven) boom_first world0) = Inl (UserError ''boom'')
   \<and> trace (snd (snd (run_pending (ticking eleven) boom_first world0))) = [Ran 0]
   \<and> env (snd (snd (run_pending (ticking eleven) boom_first world0))) = []
   \<and> jobs (fst (snd (run_pending (ticking eleven) boom_first world0))) ! 1 = jobs boom_first ! 1"
  unfolding run_pending_boom_first
  by (simp add: example_values ticking_def eleven_def world0_def)

text \<open>
  C9. When no job is due (every job has a \<^verbatim>\<open>next_run\<close> later than the clock reading taken
  for it), \<^verbatim>\<open>run_pending\<close> returns normally and changes nothing but the number of clock
  readings: no job is run, no action acts on the environment, and every job, so every
  \<^verbatim>\<open>last_run\<close> and \<^verbatim>\<open>next_run\<close>, is as before.
\<close>

theorem run_pending_none_due:
  assumes "\<forall>i<length (jobs s). \<exists>t. next_run (jobs s ! i) = Some t \<and> clk (ticks w + i) < t"
  shows "run_pending clk s w = (Inr (), s, w\<lparr>ticks := ticks w + length (jobs s)\<rparr>)"
proof -
  have c: "\<forall>j\<in>set (jobs s). next_run j \<noteq> None"
    using assms by (metis in_set_conv_nth option.distinct(1))
  from runnable_jobs_total [OF c] obtain ps where
    ps: "runnable_jobs clk (jobs s) 0 w = (Inr ps, w\<lparr>ticks := ticks w + length (jobs s)\<rparr>)" by blast
  have "p \<notin> set ps" for p
  proof
    assume "p \<in> set ps"
    then obtain k t where "k < length (jobs s)" "next_run (jobs s ! k) = Some t"
      "t \<le> clk (ticks w + k)"
      using runnable_jobs_set [OF ps] by auto
    then show False using assms by fastforce
  qed
  then have "ps = []" by (cases ps) auto
  then show ?thesis using ps by (simp add: run_pending_def sorted_jobs_Nil)
qed

theorem run_pending_none_due_witness:
  "map next_run (jobs three_jobs)
     = [Some 63929379660000000, Some 63929379601000000, Some 63929390400000000]
   \<and> ticking nine (ticks world0 + 0) < 63929379660000000
   \<and> ticking nine (ticks world0 + 1) < 63929379601000000
   \<and> ticking nine (ticks world0 + 2) < 63929390400000000
   \<and> run_pending (ticking nine) three_jobs world0
       = (Inr (), three_jobs, world0\<lparr>ticks := ticks world0 + length (jobs three_jobs)\<rparr>)"
proof -
  have m: "map next_run (jobs three_jobs)
     = [Some 63929379660000000, Some 63929379601000000, Some 63929390400000000]"
    by (simp add: example_values)
  have c: "ticking nine (ticks world0 + 0) < 63929379660000000"
    "ticking nine (ticks world0 + 1) < 63929379601000000"
    "ticking nine (ticks world0 + 2) < 63929390400000000"
    by (simp_all add: ticking_def nine_def world0_def)
  have h: "\<forall>i<length (jobs three_jobs). \<exists>t. next_run (jobs three_jobs ! i) = Some t
        \<and> ticking nine (ticks world0 + i) < t"
    by (auto simp: example_values ticking_def nine_def world0_def less_Suc_eq nth_Cons')
  show ?thesis
    by (rule conjI [OF m conjI [OF c(1) conjI [OF c(2) conjI [OF c(3)
          run_pending_none_due [OF h]]]]])
qed

text \<open>
  C4, as amended. Under the conditions of C3, a job that is due, by however many of its
  periods, is run exactly once by a single \<^verbatim>\<open>run_pending\<close>, and its new \<^verbatim>\<open>next_run\<close> comes
  from the time of that run alone. With \<open>m\<close> the number of due jobs run before it, the run
  takes the two clock readings after the readings of the selection and of these \<open>m\<close> runs:
  \<^verbatim>\<open>last_run\<close> is the first of them, and \<^verbatim>\<open>next_run\<close> is the second plus the period, with
  the time of day replaced by the anchor when the job has one. For a job without an anchor
  it is that second reading plus the period.
\<close>

theorem run_pending_overdue_once:
  assumes "\<forall>j\<in>set (jobs s). next_run j \<noteq> None"
    and "\<forall>i<length (jobs s). the (next_run (jobs s ! i)) \<le> clk (ticks w + i)
          \<longrightarrow> never_fails clk (jobs s ! i)"
    and "i < length (jobs s)" and "next_run (jobs s ! i) = Some t" and "t \<le> clk (ticks w + i)"
  shows "\<exists>order m u p. distinct order
     \<and> set order = {i. i < length (jobs s) \<and> the (next_run (jobs s ! i)) \<le> clk (ticks w + i)}
     \<and> sorted (map (\<lambda>i. the (next_run (jobs s ! i))) order)
     \<and> m < length order \<and> order ! m = i
     \<and> fst (run_pending clk s w) = Inr ()
     \<and> trace (snd (snd (run_pending clk s w))) = trace w @ map Ran order
     \<and> length (filter ((=) (Ran i)) (trace (snd (snd (run_pending clk s w)))))
         = Suc (length (filter ((=) (Ran i)) (trace w)))
     \<and> env (snd (snd (run_pending clk s w)))
         = foldl (\<lambda>e i. effect (jobs s ! i) e) (env w) order
     \<and> unit (jobs s ! i) = Some u \<and> timedelta u (interval (jobs s ! i)) = Inr p
     \<and> jobs (fst (snd (run_pending clk s w))) ! i
         = bookkeeping (clk (ticks w + length (jobs s) + 2 * m))
             (clk (Suc (ticks w + length (jobs s) + 2 * m))) p (jobs s ! i)
     \<and> (at_time (jobs s ! i) = None \<longrightarrow>
          next_run (jobs (fst (snd (run_pending clk s w))) ! i)
            = Some (clk (Suc (ticks w + length (jobs s) + 2 * m)) + p))"
proof -
  let ?key = "\<lambda>i. the (next_run (jobs s ! i))"
  show ?thesis
  proof (rule run_pending_completes [OF assms(1,2)])
    fix order s' w'
    assume c: "run_pending clk s w = (Inr (), s', w')"
      "distinct order"
      "set order = {i. i < length (jobs s) \<and> ?key i \<le> clk (ticks w + i)}"
      "sorted (map ?key order)"
      "trace w' = trace w @ map Ran order"
      "env w' = foldl (\<lambda>e i. effect (jobs s ! i) e) (env w) order"
      "length (jobs s') = length (jobs s)"
      "\<forall>n. n \<notin> set order \<longrightarrow> jobs s' ! n = jobs s ! n"
    and up: "\<forall>m<length order. \<exists>u p. unit (jobs s ! (order ! m)) = Some u
        \<and> timedelta u (interval (jobs s ! (order ! m))) = Inr p
        \<and> jobs s' ! (order ! m)
            = bookkeeping (clk (ticks w + length (jobs s) + 2 * m))
                (clk (Suc (ticks w + length (jobs s) + 2 * m))) p (jobs s ! (order ! m))"
    have i: "i \<in> set order"
      using c(3) assms(3,4,5) by simp
    then obtain m where m: "m < length order" "order ! m = i"
      by (auto simp: in_set_conv_nth)
    from up m obtain u p where
      b: "unit (jobs s ! i) = Some u" "timedelta u (interval (jobs s ! i)) = Inr p"
        "jobs s' ! i = bookkeeping (clk (ticks w + length (jobs s) + 2 * m))
               (clk (Suc (ticks w + length (jobs s) + 2 * m))) p (jobs s ! i)"
      by blast
    have cnt: "length (filter ((=) (Ran i)) (trace w')) = Suc (length (filter ((=) (Ran i)) (trace w)))"
      using c(5) ran_once [OF c(2) i] by simp
    have nx: "at_time (jobs s ! i) = None \<longrightarrow>
        next_run (jobs s' ! i) = Some (clk (Suc (ticks w + length (jobs s) + 2 * m)) + p)"
      using b(3) by (simp add: bookkeeping_def)
    have r: "fst (run_pending clk s w) = Inr ()" "snd (snd (run_pending clk s w)) = w'"
      "fst (snd (run_pending clk s w)) = s'"
      using c(1) by simp_all
    show ?thesis
      unfolding r
    proof (intro exI [of _ order] exI [of _ m] exI [of _ u] exI [of _ p] conjI)
      show "distinct order" by (rule c(2))
      show "set order = {i. i < length (jobs s) \<and> ?key i \<le> clk (ticks w + i)}" by (rule c(3))
      show "sorted (map ?key order)" by (rule c(4))
      show "m < length order" by (rule m(1))
      show "order ! m = i" by (rule m(2))
      show "Inr () = Inr ()" by (rule refl)
      show "trace w' = trace w @ map Ran order" by (rule c(5))
      show "length (filter ((=) (Ran i)) (trace w')) = Suc (length (filter ((=) (Ran i)) (trace w)))"
        by (rule cnt)
      show "env w' = foldl (\<lambda>e i. effect (jobs s ! i) e) (env w) order" by (rule c(6))
      show "unit (jobs s ! i) = Some u" by (rule b(1))
      show "timedelta u (interval (jobs s ! i)) = Inr p" by (rule b(2))
      show "jobs s' ! i = bookkeeping (clk (ticks w + length (jobs s) + 2 * m))
               (clk (Suc (ticks w + length (jobs s) + 2 * m))) p (jobs s ! i)" by (rule b(3))
      show "at_time (jobs s ! i) = None \<longrightarrow>
        next_run (jobs s' ! i) = Some (clk (Suc (ticks w + length (jobs s) + 2 * m)) + p)"
        by (rule nx)
    qed
  qed
qed

theorem run_pending_overdue_once_witness:
  "map next_run (jobs three_jobs)
     = [Some 63929379660000000, Some 63929379601000000, Some 63929390400000000]
   \<and> never_fails (capped eleven) (jobs three_jobs ! 0)
   \<and> never_fails (capped eleven) (jobs three_jobs ! 1)
   \<and> \<not> the (next_run (jobs three_jobs ! 2)) \<le> capped eleven (ticks world0 + 2)
   \<and> 1 < length (jobs three_jobs)
   \<and> next_run (jobs three_jobs ! 1) = Some 63929379601000000
   \<and> 63929379601000000 + 5 * 1000000 \<le> capped eleven (ticks world0 + 1)
   \<and> trace (snd (snd (run_pending (capped eleven) three_jobs world0))) = [Ran 1, Ran 0]
   \<and> env (snd (snd (run_pending (capped eleven) three_jobs world0))) = [''a'', ''b'']
   \<and> last_run (jobs (fst (snd (run_pending (capped eleven) three_jobs world0))) ! 1)
       = Some (capped eleven 3)
   \<and> next_run (jobs (fst (snd (run_pending (capped eleven) three_jobs world0))) ! 1)
       = Some (capped eleven 4 + 1000000)
   \<and> (\<exists>order m u p. distinct order
     \<and> set order = {i. i < length (jobs three_jobs)
          \<and> the (next_run (jobs three_jobs ! i)) \<le> capped eleven (ticks world0 + i)}
     \<and> sorted (map (\<lambda>i. the (next_run (jobs three_jobs ! i))) order)
     \<and> m < length order \<and> order ! m = 1
     \<and> fst (run_pending (capped eleven) three_jobs world0) = Inr ()
     \<and> trace (snd (snd (run_pending (capped eleven) three_jobs world0)))
         = trace world0 @ map Ran order
     \<and> length (filter ((=) (Ran 1)) (trace (snd (snd (run_pending (capped eleven) three_jobs world0)))))
         = Suc (length (filter ((=) (Ran 1)) (trace world0)))
     \<and> env (snd (snd (run_pending (capped eleven) three_jobs world0)))
         = foldl (\<lambda>e i. effect (jobs three_jobs ! i) e) (env world0) order
     \<and> unit (jobs three_jobs ! 1) = Some u
     \<and> timedelta u (interval (jobs three_jobs ! 1)) = Inr p
     \<and> jobs (fst (snd (run_pending (capped eleven) three_jobs world0))) ! 1
         = bookkeeping (capped eleven (ticks world0 + length (jobs three_jobs) + 2 * m))
             (capped eleven (Suc (ticks world0 + length (jobs three_jobs) + 2 * m))) p
             (jobs three_jobs ! 1)
     \<and> (at_time (jobs three_jobs ! 1) = None \<longrightarrow>
          next_run (jobs (fst (snd (run_pending (capped eleven) three_jobs world0))) ! 1)
            = Some (capped eleven (Suc (ticks world0 + length (jobs three_jobs) + 2 * m)) + p)))"
proof -
  have h: "\<forall>j\<in>set (jobs three_jobs). next_run j \<noteq> None"
    by (simp add: example_values)
  have m: "map next_run (jobs three_jobs)
     = [Some 63929379660000000, Some 63929379601000000, Some 63929390400000000]"
    by (simp add: example_values)
  have n0: "never_fails (capped eleven) (jobs three_jobs ! 0)"
    using never_fails_examples(1) by (simp add: three_jobs_def)
  have n1: "never_fails (capped eleven) (jobs three_jobs ! 1)"
    using never_fails_examples(2) by (simp add: three_jobs_def)
  have n2: "\<not> the (next_run (jobs three_jobs ! 2)) \<le> capped eleven (ticks world0 + 2)"
    by (simp add: example_values capped_def eleven_def world0_def)
  have h2: "1 < length (jobs three_jobs)"
    by (simp add: example_values)
  have h3: "next_run (jobs three_jobs ! 1) = Some 63929379601000000"
    by (simp add: example_values)
  have late: "63929379601000000 + 5 * 1000000 \<le> capped eleven (ticks world0 + 1)"
    by (simp add: capped_def eleven_def world0_def)
  then have h4: "63929379601000000 \<le> capped eleven (ticks world0 + 1)"
    by simp
  have tr: "trace (snd (snd (run_pending (capped eleven) three_jobs world0))) = [Ran 1, Ran 0]"
    unfolding run_pending_capped_eleven by simp
  have en: "env (snd (snd (run_pending (capped eleven) three_jobs world0))) = [''a'', ''b'']"
    unfolding run_pending_capped_eleven by simp
  have lr: "last_run (jobs (fst (snd (run_pending (capped eleven) three_jobs world0))) ! 1)
       = Some (capped eleven 3)"
    unfolding run_pending_capped_eleven by (simp add: capped_def eleven_def)
  have nr: "next_run (jobs (fst (snd (run_pending (capped eleven) three_jobs world0))) ! 1)
       = Some (capped eleven 4 + 1000000)"
    unfolding run_pending_capped_eleven by (simp add: capped_def eleven_def)
  show ?thesis
    by (rule conjI [OF m conjI [OF n0 conjI [OF n1 conjI [OF n2 conjI [OF h2 conjI [OF h3
          conjI [OF late conjI [OF tr conjI [OF en conjI [OF lr conjI [OF nr
            run_pending_overdue_once [OF h three_jobs_due_never_fail h2 h3 h4]]]]]]]]]]]])
qed

text \<open>
  The claim C4 as stated fails in two ways. The job of every day at 10:30, due since
  2026-11-04 10:30, is checked three days later at 11:00: it is run once, and its new
  \<^verbatim>\<open>next_run\<close> is 2026-11-08 10:30, which is none of the three clock readings of the call
  plus the period of one day. And the job of every minute, overdue by more than a hundred
  periods, comes after a due job whose action raises: it is not run at all, and its
  \<^verbatim>\<open>next_run\<close> stays.
\<close>

theorem run_pending_anchored_counterexample:
  "next_run (jobs one_daily_job ! 0) = Some 63929385000000000
   \<and> period (jobs one_daily_job ! 0) = Some 86400000000
   \<and> 63929385000000000 + 3 * 86400000000 \<le> ticking three_days_later 0
   \<and> fst (run_pending (ticking three_days_later) one_daily_job world0) = Inr ()
   \<and> ticks (snd (snd (run_pending (ticking three_days_later) one_daily_job world0))) = 3
   \<and> trace (snd (snd (run_pending (ticking three_days_later) one_daily_job world0))) = [Ran 0]
   \<and> period (jobs (fst (snd (run_pending (ticking three_days_later) one_daily_job world0))) ! 0)
       = Some 86400000000
   \<and> next_run (jobs (fst (snd (run_pending (ticking three_days_later) one_daily_job world0))) ! 0)
       = Some 63929730600000000
   \<and> 63929730600000000 \<noteq> ticking three_days_later 0 + 86400000000
   \<and> 63929730600000000 \<noteq> ticking three_days_later 1 + 86400000000
   \<and> 63929730600000000 \<noteq> ticking three_days_later 2 + 86400000000
   \<and> next_run (jobs boom_first ! 1) = Some 63929379660000000
   \<and> period (jobs boom_first ! 1) = Some 60000000
   \<and> 63929379660000000 + 100 * 60000000 \<le> ticking eleven (ticks world0 + 1)
   \<and> fst (run_pending (ticking eleven) boom_first world0) = Inl (UserError ''boom'')
   \<and> length (filter ((=) (Ran 1)) (trace (snd (snd (run_pending (ticking eleven) boom_first world0)))))
       = 0
   \<and> next_run (jobs (fst (snd (run_pending (ticking eleven) boom_first world0))) ! 1)
       = Some 63929379660000000"
  unfolding run_pending_three_days_later run_pending_boom_first
  by (simp add: example_values ticking_def three_days_later_def eleven_def world0_def)




text \<open>
  C10. On a job that \<^verbatim>\<open>every\<close> has created and that has been through any of the unit
  selectors and \<^verbatim>\<open>at\<close>, but not through \<^verbatim>\<open>do\<close>, the bound action and \<^verbatim>\<open>next_run\<close> are
  both absent, and both \<^verbatim>\<open>run\<close> and \<^verbatim>\<open>should_run\<close> fail with a type error; and
  \<^verbatim>\<open>run_pending\<close> and \<^verbatim>\<open>run_all\<close> fail on every collection that holds such a job.
\<close>

theorem unconfigured_job_fails:
  assumes "unconfigured j"
  shows "job_func j = None \<and> next_run j = None
     \<and> fst (run clk j w) = Inl TypeError
     \<and> fst (should_run clk j w) = Inl TypeError
     \<and> (j \<in> set (jobs s) \<longrightarrow>
          (\<exists>e. fst (run_pending clk s w) = Inl e) \<and> (\<exists>e. fst (run_all clk d s w) = Inl e))"
proof -
  have n: "job_func j = None" "next_run j = None"
    using unconfigured_None [OF assms] by simp_all
  have 1: "fst (run clk j w) = Inl TypeError"
    using n by (simp add: run_def)
  have 2: "fst (should_run clk j w) = Inl TypeError"
    using n by (simp add: should_run_cases)
  have 3: "\<exists>e. fst (run_pending clk s w) = Inl e" if mem: "j \<in> set (jobs s)"
  proof -
    from runnable_jobs_fails [of "jobs s" clk 0 w] mem n obtain e w1 where
      "runnable_jobs clk (jobs s) 0 w = (Inl e, w1)" by blast
    then show ?thesis by (simp add: run_pending_def)
  qed
  have 4: "\<exists>e. fst (run_all clk d s w) = Inl e" if mem: "j \<in> set (jobs s)"
  proof -
    obtain r s' w' where ra: "run_all_from clk d [0..<length (jobs s)] s w = (r, s', w')"
      by (cases "run_all_from clk d [0..<length (jobs s)] s w")
    obtain i where i: "i < length (jobs s)" "jobs s ! i = j"
      using mem by (auto simp: in_set_conv_nth)
    show ?thesis
    proof (cases r)
      case (Inl e)
      then show ?thesis using ra by (simp add: run_all_def)
    next
      case (Inr u)
      then have "run_all_from clk d [0..<length (jobs s)] s w = (Inr (), s', w')"
        using ra by simp
      from run_all_from_configured [OF this] have "job_func (jobs s ! i) \<noteq> None"
        using i(1) by simp
      then show ?thesis using i(2) n(1) by simp
    qed
  qed
  show ?thesis using n 1 2 3 4 by blast
qed

theorem unconfigured_job_fails_witness:
  "unconfigured (Job_init 1 :: string list job)
   \<and> Job_init 1 \<in> set (jobs (snd (every 1 (Scheduler_init :: string list scheduler))))
   \<and> fst (run (ticking nine) (Job_init 1) world0) = Inl TypeError
   \<and> fst (should_run (ticking nine) (Job_init 1) world0) = Inl TypeError
   \<and> (\<exists>e. fst (run_pending (ticking nine) (snd (every 1 Scheduler_init)) world0) = Inl e)
   \<and> (\<exists>e. fst (run_all (ticking nine) 0 (snd (every 1 Scheduler_init)) world0) = Inl e)"
proof -
  have h: "unconfigured (Job_init 1 :: string list job)"
    by (rule unconfigured.created)
  have m: "Job_init 1 \<in> set (jobs (snd (every 1 (Scheduler_init :: string list scheduler))))"
    by (simp add: every_def Scheduler_init_def)
  show ?thesis
    using unconfigured_job_fails [OF h, of "ticking nine" world0
        "snd (every 1 Scheduler_init)" 0] h m
    by blast
qed

text \<open>
  C7. On a collection that is not empty and whose jobs all have a \<^verbatim>\<open>next_run\<close>, the query
  \<^verbatim>\<open>next_run\<close> of the scheduler returns the least \<^verbatim>\<open>next_run\<close> of the collection. On an
  empty collection \<^verbatim>\<open>next_run\<close> and \<^verbatim>\<open>idle_seconds\<close> fail with a value error; after
  \<^verbatim>\<open>clear\<close> the collection is empty and both queries fail.
\<close>

theorem Scheduler_next_run_minimum:
  "(jobs s \<noteq> [] \<and> (\<forall>j\<in>set (jobs s). next_run j \<noteq> None) \<longrightarrow>
      (\<exists>t. Scheduler_next_run s = Inr (Some t)
         \<and> (\<exists>j\<in>set (jobs s). next_run j = Some t)
         \<and> (\<forall>j\<in>set (jobs s). \<forall>t'. next_run j = Some t' \<longrightarrow> t \<le> t')))
   \<and> (jobs s = [] \<longrightarrow>
        Scheduler_next_run s = Inl ValueError \<and> fst (idle_seconds clk s w) = Inl ValueError)
   \<and> jobs (clear s) = []
   \<and> Scheduler_next_run (clear s) = Inl ValueError
   \<and> fst (idle_seconds clk (clear s) w) = Inl ValueError"
proof -
  have 1: "\<exists>t. Scheduler_next_run s = Inr (Some t)
         \<and> (\<exists>j\<in>set (jobs s). next_run j = Some t)
         \<and> (\<forall>j\<in>set (jobs s). \<forall>t'. next_run j = Some t' \<longrightarrow> t \<le> t')"
    if ne: "jobs s \<noteq> []" and c: "\<forall>j\<in>set (jobs s). next_run j \<noteq> None"
  proof -
    obtain m xs where js: "jobs s = m # xs" using ne by (cases "jobs s") auto
    then obtain a where a: "next_run m = Some a" using c by auto
    have "\<forall>j\<in>set xs. next_run j \<noteq> None" using c js by simp
    from min_from_Inr [OF a this] obtain j t where
      "min_from m xs = Inr j" "j \<in> set (m # xs)" "next_run j = Some t"
      "\<forall>x\<in>set (m # xs). \<forall>t'. next_run x = Some t' \<longrightarrow> t \<le> t'" by blast
    then show ?thesis
      using js by (auto simp: Scheduler_next_run_def py_min_def)
  qed
  have 2: "Scheduler_next_run s = Inl ValueError \<and> fst (idle_seconds clk s w) = Inl ValueError"
    if "jobs s = []" for s :: "'a scheduler"
    using that by (simp add: Scheduler_next_run_def py_min_def idle_seconds_def)
  have 3: "jobs (clear s) = []"
    by (simp add: clear_def)
  show ?thesis using 1 2 [of s] 2 [OF 3] 3 by blast
qed

theorem Scheduler_next_run_minimum_witness:
  "jobs three_jobs \<noteq> []
   \<and> map next_run (jobs three_jobs)
       = [Some 63929379660000000, Some 63929379601000000, Some 63929390400000000]
   \<and> Scheduler_next_run three_jobs = Inr (Some 63929379601000000)
   \<and> (\<exists>t. Scheduler_next_run three_jobs = Inr (Some t)
         \<and> (\<exists>j\<in>set (jobs three_jobs). next_run j = Some t)
         \<and> (\<forall>j\<in>set (jobs three_jobs). \<forall>t'. next_run j = Some t' \<longrightarrow> t \<le> t'))
   \<and> jobs (Scheduler_init :: string list scheduler) = []
   \<and> Scheduler_next_run (Scheduler_init :: string list scheduler) = Inl ValueError
   \<and> fst (idle_seconds (ticking nine) (Scheduler_init :: string list scheduler) world0)
       = Inl ValueError
   \<and> jobs (clear three_jobs) = []
   \<and> Scheduler_next_run (clear three_jobs) = Inl ValueError
   \<and> fst (idle_seconds (ticking nine) (clear three_jobs) world0) = Inl ValueError"
proof -
  have a: "jobs three_jobs \<noteq> []"
    by (simp add: example_values)
  have b: "\<forall>j\<in>set (jobs three_jobs). next_run j \<noteq> None"
    by (simp add: example_values)
  have c: "Scheduler_next_run three_jobs = Inr (Some 63929379601000000)"
    by (simp add: example_values Scheduler_next_run_def py_min_def Job_lt_def)
  have d: "jobs (Scheduler_init :: string list scheduler) = []"
    by (simp add: Scheduler_init_def)
  have m: "map next_run (jobs three_jobs)
       = [Some 63929379660000000, Some 63929379601000000, Some 63929390400000000]"
    by (simp add: example_values)
  show ?thesis
    using Scheduler_next_run_minimum [of three_jobs "ticking nine" world0]
      Scheduler_next_run_minimum [of "Scheduler_init :: string list scheduler" "ticking nine" world0]
      a b c d m
    by blast
qed

end
